theory Spec2Isabelle
  imports Main "HOL-Library.FSet" "HOL-Library.Char_ord" "HOL-Library.List_Lexorder"
begin

section \<open>FlashCrawler: a breadth-first crawler with parameter-signature deduplication\<close>

text \<open>
  A shallow embedding of \<^verbatim>\<open>FlashCrawler.py\<close>. Python strings are \<^typ>\<open>string\<close>
  (the UTF-8 octets of the text), Python sets are finite sets or, where the iteration
  order of the set is observed, duplicate-free lists; the deque is a list whose head is
  its left end. Every exception the code lets escape is a value of \<open>error\<close>.
\<close>

subsection \<open>Errors and the environment\<close>

datatype error = ValueError | SystemExit | IndexError

text \<open>
  What \<^verbatim>\<open>requests.get\<close>, \<^verbatim>\<open>raise_for_status\<close>, \<^verbatim>\<open>BeautifulSoup\<close>,
  \<^verbatim>\<open>find_all\<close> and \<^verbatim>\<open>urljoin\<close> produce for one URL:
  \<^item> \<open>Timeout\<close>: \<^verbatim>\<open>requests.exceptions.Timeout\<close>;
  \<^item> \<open>RequestException\<close>: any other \<^verbatim>\<open>RequestException\<close> (connection failure, and the
    \<^verbatim>\<open>HTTPError\<close> of \<^verbatim>\<open>raise_for_status\<close> on a 4xx or 5xx status);
  \<^item> \<open>ParseError\<close>: the constructor of \<^verbatim>\<open>BeautifulSoup\<close> raises;
  \<^item> \<open>Page hs\<close>: the page was fetched and parsed; \<open>hs\<close> holds, for every \<^verbatim>\<open>a\<close> tag
    with an \<^verbatim>\<open>href\<close> in document order, the outcome of \<^verbatim>\<open>urljoin(base, tag["href"])\<close>:
    the absolute URL, or the \<open>ValueError\<close> that \<^verbatim>\<open>urljoin\<close> raises on a reference it
    cannot split.
\<close>

datatype response = Timeout | RequestException | ParseError | Page "(error + string) list"

text \<open>
  The environment of a run. Three fields stand for parts of \<^verbatim>\<open>urllib.parse\<close> that are
  not spelled out here:
  \<^item> \<open>bracketed_host_ok h\<close>: \<^verbatim>\<open>_check_bracketed_host(h)\<close> does not raise (\<open>h\<close> is an
    IPv6 or IPvFuture literal);
  \<^item> \<open>nfkc_ok n\<close>: \<^verbatim>\<open>_checknetloc(n)\<close> does not raise on the non-ASCII netloc \<open>n\<close>;
  \<^item> \<open>unquote_escapes s\<close>: the value of \<^verbatim>\<open>unquote(s)\<close> for a string \<open>s\<close> that contains
    a percent sign.

  \<open>fetch\<close> is the web, and \<open>set_order\<close> chooses the order in which a Python \<^verbatim>\<open>set\<close> of
  strings is iterated (its argument lists the elements in insertion order).
\<close>

record env =
  bracketed_host_ok :: "string \<Rightarrow> bool"
  nfkc_ok :: "string \<Rightarrow> bool"
  unquote_escapes :: "string \<Rightarrow> string"
  fetch :: "string \<Rightarrow> response"
  set_order :: "string list \<Rightarrow> string list"

subsection \<open>String helpers of Python\<close>

definition is_ascii :: "char \<Rightarrow> bool" where
  "is_ascii c = ((of_char c :: nat) < 128)"

definition is_ascii_alpha :: "char \<Rightarrow> bool" where
  "is_ascii_alpha c =
     ((CHR ''a'' \<le> c \<and> c \<le> CHR ''z'') \<or> (CHR ''A'' \<le> c \<and> c \<le> CHR ''Z''))"

definition is_digit :: "char \<Rightarrow> bool" where
  "is_digit c = (CHR ''0'' \<le> c \<and> c \<le> CHR ''9'')"

text \<open>\<^verbatim>\<open>scheme_chars\<close>: letters, digits and \<^verbatim>\<open>+-.\<close>\<close>

definition scheme_chars :: "char \<Rightarrow> bool" where
  "scheme_chars c = (is_ascii_alpha c \<or> is_digit c \<or> c = CHR ''+'' \<or> c = CHR ''-'' \<or> c = CHR ''.'')"

definition lower_char :: "char \<Rightarrow> char" where
  "lower_char c =
     (if CHR ''A'' \<le> c \<and> c \<le> CHR ''Z'' then char_of (of_char c + (32::nat)) else c)"

text \<open>\<^verbatim>\<open>s.find(c) >= 0\<close>, \<^verbatim>\<open>s[:s.find(c)]\<close> and \<^verbatim>\<open>s[s.find(c)+1:]\<close>.\<close>

definition before :: "char \<Rightarrow> string \<Rightarrow> string" where
  "before c s = takeWhile (\<lambda>x. x \<noteq> c) s"

definition after :: "char \<Rightarrow> string \<Rightarrow> string" where
  "after c s = drop 1 (dropWhile (\<lambda>x. x \<noteq> c) s)"

text \<open>\<^verbatim>\<open>s.split(sep)\<close> for a separator of one character.\<close>

fun str_split :: "char \<Rightarrow> string \<Rightarrow> string list" where
  "str_split sep [] = [[]]"
| "str_split sep (c # cs) =
     (if c = sep then [] # str_split sep cs
      else (case str_split sep cs of
              [] \<Rightarrow> [[c]]
            | r # rs \<Rightarrow> (c # r) # rs))"

text \<open>\<^verbatim>\<open>sep.join(xs)\<close>\<close>

fun str_join :: "string \<Rightarrow> string list \<Rightarrow> string" where
  "str_join sep [] = []"
| "str_join sep [x] = x"
| "str_join sep (x # y # ys) = x @ sep @ str_join sep (y # ys)"

text \<open>\<^verbatim>\<open>s.add(x)\<close> on a set kept in insertion order.\<close>

definition set_add :: "'a list \<Rightarrow> 'a \<Rightarrow> 'a list" where
  "set_add xs x = (if x \<in> set xs then xs else xs @ [x])"

text \<open>
  Iterating a set: the order is the environment's choice among the permutations of the
  elements.
\<close>

definition iterate :: "env \<Rightarrow> string list \<Rightarrow> string list" where
  "iterate E xs =
     (let ys = set_order E xs
      in if distinct ys \<and> set ys = set xs then ys else xs)"

subsection \<open>\<^verbatim>\<open>urllib.parse\<close>: \<^verbatim>\<open>urlsplit\<close>, \<^verbatim>\<open>urlparse\<close>, \<^verbatim>\<open>parse_qs\<close> (CPython 3.12)\<close>

record parse_result =
  scheme :: string
  netloc :: string
  path :: string
  params :: string
  query :: string
  fragment :: string

text \<open>\<^verbatim>\<open>url.lstrip(_WHATWG_C0_CONTROL_OR_SPACE)\<close>, then tab, CR and LF are removed.\<close>

definition clean_url :: "string \<Rightarrow> string" where
  "clean_url url =
     filter (\<lambda>c. c \<noteq> CHR 0x09 \<and> c \<noteq> CHR 0x0D \<and> c \<noteq> CHR 0x0A)
       (dropWhile (\<lambda>c. (of_char c :: nat) \<le> 32) url)"

text \<open>The scheme, lower-cased, and the rest; no scheme leaves the URL as it is.\<close>

definition split_scheme :: "string \<Rightarrow> string \<times> string" where
  "split_scheme url =
     (let pre = before CHR '':'' url
      in if CHR '':'' \<in> set url \<and> pre \<noteq> [] \<and> is_ascii (hd pre) \<and> is_ascii_alpha (hd pre)
            \<and> list_all scheme_chars pre
         then (map lower_char pre, after CHR '':'' url)
         else ([], url))"

text \<open>\<^verbatim>\<open>_splitnetloc(url, 2)\<close>: the authority ends at the first of \<^verbatim>\<open>/?#\<close>.\<close>

definition splitnetloc :: "string \<Rightarrow> string \<times> string" where
  "splitnetloc url =
     (let is_delim = (\<lambda>c. c = CHR ''/'' \<or> c = CHR ''?'' \<or> c = CHR ''#'')
      in (takeWhile (\<lambda>c. \<not> is_delim c) (drop 2 url),
          dropWhile (\<lambda>c. \<not> is_delim c) (drop 2 url)))"

text \<open>\<^verbatim>\<open>_check_bracketed_netloc\<close>: True when it does not raise.\<close>

definition check_bracketed_netloc :: "env \<Rightarrow> string \<Rightarrow> bool" where
  "check_bracketed_netloc E nl =
     (let hostname_and_port = rev (takeWhile (\<lambda>c. c \<noteq> CHR ''@'') (rev nl))
      in if CHR ''['' \<in> set hostname_and_port then
           (let before_bracket = before CHR ''['' hostname_and_port;
                bracketed = after CHR ''['' hostname_and_port;
                hostname = before CHR '']'' bracketed;
                port = after CHR '']'' bracketed
            in if before_bracket \<noteq> [] then False
               else if port \<noteq> [] \<and> hd port \<noteq> CHR '':'' then False
               else bracketed_host_ok E hostname)
         else bracketed_host_ok E (before CHR '':'' hostname_and_port))"

text \<open>\<^verbatim>\<open>_checknetloc\<close>: True when it does not raise.\<close>

definition checknetloc :: "env \<Rightarrow> string \<Rightarrow> bool" where
  "checknetloc E nl = (nl = [] \<or> list_all is_ascii nl \<or> nfkc_ok E nl)"

definition urlsplit :: "env \<Rightarrow> string \<Rightarrow> error + parse_result" where
  "urlsplit E url0 =
     (let (sch, url1) = split_scheme (clean_url url0);
          (nl, url2) = (if take 2 url1 = ''//'' then splitnetloc url1 else ([], url1));
          frag = (if CHR ''#'' \<in> set url2 then after CHR ''#'' url2 else []);
          url3 = before CHR ''#'' url2;
          qry = (if CHR ''?'' \<in> set url3 then after CHR ''?'' url3 else []);
          url4 = before CHR ''?'' url3
      in if (CHR ''['' \<in> set nl \<and> CHR '']'' \<notin> set nl) \<or> (CHR '']'' \<in> set nl \<and> CHR ''['' \<notin> set nl)
         then Inl ValueError
         else if CHR ''['' \<in> set nl \<and> CHR '']'' \<in> set nl \<and> \<not> check_bracketed_netloc E nl
         then Inl ValueError
         else if \<not> checknetloc E nl then Inl ValueError
         else Inr \<lparr>scheme = sch, netloc = nl, path = url4, params = [], query = qry,
                   fragment = frag\<rparr>)"

text \<open>\<^verbatim>\<open>uses_params\<close>\<close>

definition uses_params :: "string list" where
  "uses_params = ['''', ''ftp'', ''hdl'', ''prospero'', ''http'', ''imap'', ''https'', ''shttp'',
                  ''rtsp'', ''rtsps'', ''rtspu'', ''sip'', ''sips'', ''mms'', ''sftp'', ''tel'']"

text \<open>
  \<^verbatim>\<open>_splitparams\<close>, called on a path that contains a semicolon: the parameters start at
  the first semicolon of the last segment.
\<close>

definition splitparams :: "string \<Rightarrow> string \<times> string" where
  "splitparams url =
     (if CHR ''/'' \<in> set url then
        (let seg = rev (takeWhile (\<lambda>c. c \<noteq> CHR ''/'') (rev url));
             pre = take (length url - length seg) url
         in if CHR '';'' \<notin> set seg then (url, [])
            else (pre @ before CHR '';'' seg, after CHR '';'' seg))
      else (before CHR '';'' url, after CHR '';'' url))"

definition urlparse :: "env \<Rightarrow> string \<Rightarrow> error + parse_result" where
  "urlparse E url =
     (case urlsplit E url of
        Inl e \<Rightarrow> Inl e
      | Inr r \<Rightarrow>
          if scheme r \<in> set uses_params \<and> CHR '';'' \<in> set (path r)
          then (let (u, ps) = splitparams (path r) in Inr (r\<lparr>path := u, params := ps\<rparr>))
          else Inr r)"

text \<open>\<^verbatim>\<open>unquote_plus\<close>: plus signs become spaces, then \<^verbatim>\<open>unquote\<close>.\<close>

definition unquote :: "env \<Rightarrow> string \<Rightarrow> string" where
  "unquote E s = (if CHR ''%'' \<notin> set s then s else unquote_escapes E s)"

definition unquote_plus :: "env \<Rightarrow> string \<Rightarrow> string" where
  "unquote_plus E s = unquote E (map (\<lambda>c. if c = CHR ''+'' then CHR '' '' else c) s)"

text \<open>
  \<^verbatim>\<open>parse_qsl\<close> with its defaults (\<^verbatim>\<open>keep_blank_values=False\<close>,
  \<^verbatim>\<open>strict_parsing=False\<close>, separator \<^verbatim>\<open>&\<close>): an empty field and a field whose value
  is empty are skipped.
\<close>

definition parse_qsl :: "env \<Rightarrow> string \<Rightarrow> (string \<times> string) list" where
  "parse_qsl E qs =
     (if qs = [] then []
      else concat (map (\<lambda>name_value.
             if name_value \<noteq> [] then
               (let name = before CHR ''='' name_value;
                    val = after CHR ''='' name_value
                in if val \<noteq> [] then [(unquote_plus E name, unquote_plus E val)] else [])
             else [])
           (str_split CHR ''&'' qs)))"

text \<open>
  \<^verbatim>\<open>parse_qs\<close>: the dictionary, as the list of its items in insertion order. A name that
  is already a key gets the value appended to its list.
\<close>

definition dict_append :: "(string \<times> string list) list \<Rightarrow> string \<times> string \<Rightarrow> (string \<times> string list) list"
  where
  "dict_append d nv =
     (case nv of (name, val) \<Rightarrow>
        if name \<in> fst ` set d
        then map (\<lambda>(k, vs). if k = name then (k, vs @ [val]) else (k, vs)) d
        else d @ [(name, [val])])"

definition parse_qs :: "env \<Rightarrow> string \<Rightarrow> (string \<times> string list) list" where
  "parse_qs E qs = foldl dict_append [] (parse_qsl E qs)"

subsection \<open>Scope filter and parameter signature\<close>

text \<open>\<^verbatim>\<open>is_valid\<close>: the \<open>ValueError\<close> of \<^verbatim>\<open>urlparse\<close> is not caught.\<close>

definition is_valid :: "env \<Rightarrow> string fset \<Rightarrow> string \<Rightarrow> error + bool" where
  "is_valid E allowed url =
     (case urlparse E url of
        Inl e \<Rightarrow> Inl e
      | Inr p \<Rightarrow> Inr ((scheme p = ''http'' \<or> scheme p = ''https'') \<and> netloc p |\<in>| allowed))"

definition normalize_param_signature :: "env \<Rightarrow> string \<Rightarrow> error + string" where
  "normalize_param_signature E url =
     (case urlparse E url of
        Inl e \<Rightarrow> Inl e
      | Inr parsed \<Rightarrow>
          (let keys = sort (map fst (parse_qs E (query parsed)))
           in if keys \<noteq> [] then Inr (path parsed @ ''?params='' @ str_join ''&'' keys)
              else Inr (path parsed)))"

subsection \<open>Configuration and crawl state\<close>

text \<open>
  The command line: \<^verbatim>\<open>-u\<close>, \<^verbatim>\<open>-l\<close> (with what opening the file gives: it is missing, or
  it holds lines, given here as their \<^verbatim>\<open>line.strip()\<close>), \<^verbatim>\<open>-d\<close>, \<^verbatim>\<open>-t\<close> and
  \<^verbatim>\<open>--dedup-params\<close>. Both numbers are any integer \<^verbatim>\<open>int()\<close> accepts.
\<close>

datatype list_file = FileNotFound | Lines "string list"

record config =
  arg_url :: "string option"
  arg_list :: "list_file option"
  MAX_PAGES :: int
  DELAY :: int
  DEDUP_PARAM_SIG :: bool

text \<open>
  The module's globals. \<open>visit_log\<close> is a history variable: the URLs in the order in
  which the loop adds them to \<open>visited\<close> and hands them to \<^verbatim>\<open>extract\<close>.
\<close>

record state =
  visited :: "string fset"
  queue :: "string list"
  found :: "string fset"
  allowed_domains :: "string fset"
  seen_param_signatures :: "string fset"
  visit_log :: "string list"

subsection \<open>\<^verbatim>\<open>load_urls\<close>\<close>

text \<open>The set \<^verbatim>\<open>urls\<close>, or the exit of a missing file or of an empty set.\<close>

definition seed_set :: "config \<Rightarrow> error + string list" where
  "seed_set C =
     (let urls = (case arg_url C of
                    None \<Rightarrow> []
                  | Some u \<Rightarrow> if u \<noteq> [] then [u] else [])
      in case arg_list C of
           None \<Rightarrow> if urls = [] then Inl SystemExit else Inr urls
         | Some FileNotFound \<Rightarrow> Inl SystemExit
         | Some (Lines ls) \<Rightarrow>
             (let urls' = foldl set_add urls (filter (\<lambda>l. l \<noteq> []) ls)
              in if urls' = [] then Inl SystemExit else Inr urls'))"

text \<open>\<^verbatim>\<open>for u in urls: allowed_domains.add(urlparse(u).netloc)\<close>\<close>

fun add_domains :: "env \<Rightarrow> string list \<Rightarrow> string fset \<Rightarrow> error + string fset" where
  "add_domains E [] A = Inr A"
| "add_domains E (u # us) A =
     (case urlparse E u of
        Inl e \<Rightarrow> Inl e
      | Inr p \<Rightarrow> add_domains E us (finsert (netloc p) A))"

definition load_urls :: "config \<Rightarrow> env \<Rightarrow> error + state" where
  "load_urls C E =
     (case seed_set C of
        Inl e \<Rightarrow> Inl e
      | Inr urls \<Rightarrow>
          (case add_domains E (iterate E urls) {||} of
             Inl e \<Rightarrow> Inl e
           | Inr A \<Rightarrow> Inr \<lparr>visited = {||}, queue = iterate E urls, found = {||},
                           allowed_domains = A, seen_param_signatures = {||},
                           visit_log = []\<rparr>))"

subsection \<open>\<^verbatim>\<open>extract\<close>\<close>

text \<open>
  The function is called \<open>extract_url\<close> here, \<open>extract\<close> being a command of Isabelle.

  The loop over the \<^verbatim>\<open>a\<close> tags: \<open>links\<close> is the local set, the state carries
  \<open>seen_param_signatures\<close>. An exception of \<^verbatim>\<open>urljoin\<close> or \<^verbatim>\<open>urlparse\<close> leaves the loop
  and the function.
\<close>

fun extract_links ::
  "config \<Rightarrow> env \<Rightarrow> (error + string) list \<Rightarrow> string list \<Rightarrow> state \<Rightarrow> error + (string list \<times> state)"
  where
  "extract_links C E [] links s = Inr (links, s)"
| "extract_links C E (h # hs) links s =
     (case h of
        Inl e \<Rightarrow> Inl e
      | Inr abs_url \<Rightarrow>
          (case is_valid E (allowed_domains s) abs_url of
             Inl e \<Rightarrow> Inl e
           | Inr ok \<Rightarrow>
               if ok then
                 (if DEDUP_PARAM_SIG C then
                    (case normalize_param_signature E abs_url of
                       Inl e \<Rightarrow> Inl e
                     | Inr sig \<Rightarrow>
                         if sig |\<in>| seen_param_signatures s then extract_links C E hs links s
                         else extract_links C E hs (set_add links abs_url)
                                (s\<lparr>seen_param_signatures := finsert sig (seen_param_signatures s)\<rparr>))
                  else extract_links C E hs (set_add links abs_url) s)
               else extract_links C E hs links s))"

definition extract_url :: "config \<Rightarrow> env \<Rightarrow> state \<Rightarrow> string \<Rightarrow> error + (string list \<times> state)" where
  "extract_url C E s url =
     (case fetch E url of
        Timeout \<Rightarrow> Inr ([], s)
      | RequestException \<Rightarrow> Inr ([], s)
      | ParseError \<Rightarrow> Inr ([], s)
      | Page hs \<Rightarrow> extract_links C E hs [] s)"

subsection \<open>\<^verbatim>\<open>crawl\<close>\<close>

text \<open>\<^verbatim>\<open>for link in links: if link not in visited and link not in queue: queue.append(link)\<close>\<close>

fun push_links :: "state \<Rightarrow> string list \<Rightarrow> state" where
  "push_links s [] = s"
| "push_links s (link # ls) =
     (if link |\<notin>| visited s \<and> link \<notin> set (queue s)
      then push_links (s\<lparr>queue := queue s @ [link]\<rparr>) ls
      else push_links s ls)"

text \<open>The condition of the \<^verbatim>\<open>while\<close> loop.\<close>

definition loop_cond :: "config \<Rightarrow> state \<Rightarrow> bool" where
  "loop_cond C s = (queue s \<noteq> [] \<and> int (fcard (visited s)) < MAX_PAGES C)"

text \<open>
  One pass through the body of the loop. The progress line calls \<^verbatim>\<open>urlparse(url)\<close>, whose
  \<open>ValueError\<close> is not caught, and \<^verbatim>\<open>time.sleep\<close> raises \<open>ValueError\<close> on a negative
  delay.
\<close>

definition step :: "config \<Rightarrow> env \<Rightarrow> state \<Rightarrow> error + state" where
  "step C E s =
     (case queue s of
        [] \<Rightarrow> Inl IndexError
      | url # rest \<Rightarrow>
          if url |\<in>| visited s then Inr (s\<lparr>queue := rest\<rparr>)
          else
            (case urlparse E url of
               Inl e \<Rightarrow> Inl e
             | Inr _ \<Rightarrow>
                 (case extract_url C E (s\<lparr>queue := rest, visited := finsert url (visited s),
                                      visit_log := visit_log s @ [url]\<rparr>) url of
                    Inl e \<Rightarrow> Inl e
                  | Inr (links, s') \<Rightarrow>
                      if DELAY C < 0 then Inl ValueError
                      else (let s'' = push_links s' (iterate E links)
                            in Inr (s''\<lparr>found := found s'' |\<union>| fset_of_list links\<rparr>)))))"

text \<open>The state after at most \<open>n\<close> passes: the points of the run between two passes.\<close>

fun run :: "config \<Rightarrow> env \<Rightarrow> nat \<Rightarrow> state \<Rightarrow> error + state" where
  "run C E 0 s = Inr s"
| "run C E (Suc n) s =
     (if loop_cond C s then
        (case step C E s of
           Inl e \<Rightarrow> Inl e
         | Inr s' \<Rightarrow> run C E n s')
      else Inr s)"

text \<open>\<^verbatim>\<open>crawl\<close>: the \<^verbatim>\<open>while\<close> loop, started in the state of the globals.\<close>

function crawl :: "config \<Rightarrow> env \<Rightarrow> state \<Rightarrow> error + state" where
  "crawl C E s =
     (if loop_cond C s then
        (case step C E s of
           Inl e \<Rightarrow> Inl e
         | Inr s' \<Rightarrow> crawl C E s')
      else Inr s)"
  by pat_completeness auto

text \<open>The entry point: \<^verbatim>\<open>load_urls()\<close>, then \<^verbatim>\<open>crawl()\<close>.\<close>

definition main :: "config \<Rightarrow> env \<Rightarrow> error + state" where
  "main C E =
     (case load_urls C E of
        Inl e \<Rightarrow> Inl e
      | Inr s \<Rightarrow> crawl C E s)"

text \<open>
  An environment for worked examples, over a given web: sets are iterated in insertion
  order. The examples are ASCII URLs without brackets and percent signs, on which the
  three fields for \<^verbatim>\<open>urllib.parse\<close> are never consulted.
\<close>

definition example_env :: "(string \<Rightarrow> response) \<Rightarrow> env" where
  "example_env web =
     \<lparr>bracketed_host_ok = (\<lambda>_. False), nfkc_ok = (\<lambda>_. False), unquote_escapes = (\<lambda>s. s),
      fetch = web, set_order = (\<lambda>xs. xs)\<rparr>"

text \<open>
  The names of the fields of a query string that have a value: each field is cut at its
  first equals sign.
\<close>

definition nonblank_names :: "string \<Rightarrow> string list" where
  "nonblank_names qs =
     map (before CHR ''='') (filter (\<lambda>f. after CHR ''='' f \<noteq> []) (str_split CHR ''&'' qs))"

text \<open>
  Following the spec's words: two URLs differ only in their query parameter values when
  they agree in every component but the query, and their query strings have the same
  parameter names field by field.
\<close>

definition differ_only_in_parameter_values :: "env \<Rightarrow> string \<Rightarrow> string \<Rightarrow> bool" where
  "differ_only_in_parameter_values E u1 u2 =
     (case (urlparse E u1, urlparse E u2) of
        (Inr p1, Inr p2) \<Rightarrow>
          scheme p1 = scheme p2 \<and> netloc p1 = netloc p2 \<and> path p1 = path p2
          \<and> params p1 = params p2 \<and> fragment p1 = fragment p2
          \<and> map (before CHR ''='') (str_split CHR ''&'' (query p1))
              = map (before CHR ''='') (str_split CHR ''&'' (query p2))
      | _ \<Rightarrow> False)"

text \<open>
  What one call of \<^verbatim>\<open>extract\<close> guarantees about the links it has collected so far, \<open>s0\<close>
  being the state at the call: only \<open>seen_param_signatures\<close> changes and it only grows,
  every link passed the scope filter and, in dedup mode, every link brought a signature
  that was new, no two links sharing one.
\<close>

definition admitted :: "config \<Rightarrow> env \<Rightarrow> state \<Rightarrow> string list \<Rightarrow> state \<Rightarrow> bool" where
  "admitted C E s0 links s =
     (distinct links
      \<and> visited s = visited s0 \<and> queue s = queue s0 \<and> found s = found s0
      \<and> allowed_domains s = allowed_domains s0 \<and> visit_log s = visit_log s0
      \<and> seen_param_signatures s0 |\<subseteq>| seen_param_signatures s
      \<and> (\<forall>l\<in>set links. is_valid E (allowed_domains s0) l = Inr True)
      \<and> (if DEDUP_PARAM_SIG C
          then (\<forall>l\<in>set links. \<exists>sg. normalize_param_signature E l = Inr sg
                    \<and> sg |\<in>| seen_param_signatures s \<and> sg |\<notin>| seen_param_signatures s0)
               \<and> (\<forall>l\<in>set links. \<forall>l'\<in>set links.
                    normalize_param_signature E l = normalize_param_signature E l' \<longrightarrow> l = l')
               \<and> (\<forall>sg. sg |\<in>| seen_param_signatures s \<longrightarrow> sg |\<in>| seen_param_signatures s0
                    \<or> (\<exists>l\<in>set links. normalize_param_signature E l = Inr sg))
          else seen_param_signatures s = seen_param_signatures s0))"

text \<open>
  The invariant of the loop, \<open>s0\<close> being the state in which \<^verbatim>\<open>crawl\<close> starts: no URL is
  twice among the visited and the queued ones, \<open>visited\<close> holds the URLs of the visit
  log, the allowed domains are those of the start, the visit log followed by the queue is
  the initial queue followed by links that were found, every link found passed the scope
  filter and, in dedup mode, the links found and the signatures seen correspond one to
  one.
\<close>

definition crawl_inv :: "config \<Rightarrow> env \<Rightarrow> state \<Rightarrow> state \<Rightarrow> bool" where
  "crawl_inv C E s0 s =
     (distinct (visit_log s @ queue s)
      \<and> fset (visited s) = set (visit_log s)
      \<and> allowed_domains s = allowed_domains s0
      \<and> (\<exists>new. visit_log s @ queue s = queue s0 @ new \<and> set new \<subseteq> fset (found s))
      \<and> (\<forall>u. u |\<in>| found s \<longrightarrow> is_valid E (allowed_domains s0) u = Inr True)
      \<and> (if DEDUP_PARAM_SIG C
          then (\<forall>u. u |\<in>| found s \<longrightarrow>
                  (\<exists>sg. normalize_param_signature E u = Inr sg \<and> sg |\<in>| seen_param_signatures s))
               \<and> (\<forall>u v. u |\<in>| found s \<longrightarrow> v |\<in>| found s \<longrightarrow>
                     normalize_param_signature E u = normalize_param_signature E v \<longrightarrow> u = v)
               \<and> (\<forall>sg. sg |\<in>| seen_param_signatures s \<longrightarrow>
                     (\<exists>u. u |\<in>| found s \<and> normalize_param_signature E u = Inr sg))
          else seen_param_signatures s = {||}))"

text \<open>
  The authority of a URL, as \<^verbatim>\<open>urlsplit\<close> cuts it out to be the netloc: what follows the
  two slashes after the scheme, up to the first of \<^verbatim>\<open>/?#\<close>.
\<close>

definition authority :: "string \<Rightarrow> string" where
  "authority url0 =
     (let (sch, url1) = split_scheme (clean_url url0)
      in if take 2 url1 = ''//'' then fst (splitnetloc url1) else [])"

text \<open>
  The checks of \<^verbatim>\<open>urlsplit\<close> on the netloc, the only places where it raises: True when
  none of them raises.
\<close>

definition netloc_accepted :: "env \<Rightarrow> string \<Rightarrow> bool" where
  "netloc_accepted E nl =
     (if (CHR ''['' \<in> set nl \<and> CHR '']'' \<notin> set nl) \<or> (CHR '']'' \<in> set nl \<and> CHR ''['' \<notin> set nl)
      then False
      else if CHR ''['' \<in> set nl \<and> CHR '']'' \<in> set nl \<and> \<not> check_bracketed_netloc E nl
      then False
      else checknetloc E nl)"

text \<open>
  Worked examples: a command line with one seed URL, and a web given as the list of its
  pages, each with the absolute URLs of its links in document order. The fetch of a page
  that is not listed fails (\<^verbatim>\<open>raise_for_status\<close> on a 404).
\<close>

definition example_config :: "string \<Rightarrow> int \<Rightarrow> int \<Rightarrow> bool \<Rightarrow> config" where
  "example_config seed budget delay dedup =
     \<lparr>arg_url = Some seed, arg_list = None, MAX_PAGES = budget, DELAY = delay,
      DEDUP_PARAM_SIG = dedup\<rparr>"

definition example_web :: "(string \<times> string list) list \<Rightarrow> string \<Rightarrow> response" where
  "example_web pages url =
     (case map_of pages url of
        None \<Rightarrow> RequestException
      | Some hrefs \<Rightarrow> Page (map Inr hrefs))"

text \<open>
  Following the spec's words: the query parameters of a URL are the non-empty fields of
  its query string, and the name of a parameter is what stands before its first equals
  sign; the value is discarded.
\<close>

definition query_parameter_names :: "env \<Rightarrow> string \<Rightarrow> string list" where
  "query_parameter_names E qs =
     map (\<lambda>f. unquote_plus E (before CHR ''='' f)) (filter (\<lambda>f. f \<noteq> []) (str_split CHR ''&'' qs))"

text \<open>
  Following the spec's words: the signature is the path joined with the sorted set of the
  query parameter names, and the path alone when there are no query parameters. The
  separators are those of the spec's examples.
\<close>

definition signatureOf :: "env \<Rightarrow> string \<Rightarrow> error + string" where
  "signatureOf E url =
     (case urlparse E url of
        Inl e \<Rightarrow> Inl e
      | Inr p \<Rightarrow>
          (let names = sort (remdups (query_parameter_names E (query p)))
           in if names = [] then Inr (path p)
              else Inr (path p @ ''?params='' @ str_join ''&'' names)))"


section \<open>Basic facts\<close>

subsection \<open>Frames, and the termination of the loop\<close>

lemma extract_links_frame:
  "extract_links C E hs links s = Inr (links', s') \<Longrightarrow>
     \<exists>S. s' = s\<lparr>seen_param_signatures := S\<rparr>"
proof (induction hs arbitrary: links s)
  case Nil
  then show ?case by (auto intro: exI [of _ "seen_param_signatures s"])
next
  case (Cons h hs)
  then show ?case
    by (fastforce split: sum.splits if_splits)
qed

lemma extract_url_frame:
  "extract_url C E s url = Inr (links', s') \<Longrightarrow> \<exists>S. s' = s\<lparr>seen_param_signatures := S\<rparr>"
  by (auto simp: extract_url_def split: response.splits dest: extract_links_frame
      intro: exI [of _ "seen_param_signatures s"])

lemma push_links_frame: "\<exists>q. push_links s ls = s\<lparr>queue := queue s @ q\<rparr>"
proof (induction ls arbitrary: s)
  case Nil
  show ?case by (auto intro: exI [of _ "[]"])
next
  case (Cons l ls)
  show ?case
  proof (cases "l |\<notin>| visited s \<and> l \<notin> set (queue s)")
    case True
    from Cons [of "s\<lparr>queue := queue s @ [l]\<rparr>"] obtain q where
      "push_links (s\<lparr>queue := queue s @ [l]\<rparr>) ls = s\<lparr>queue := queue s @ [l] @ q\<rparr>" by auto
    with True show ?thesis by (auto intro: exI [of _ "l # q"])
  next
    case False
    with Cons [of s] show ?thesis by auto
  qed
qed

lemma push_links_visited [simp]: "visited (push_links s ls) = visited s"
  using push_links_frame [of s ls] by (auto simp del: push_links.simps)

lemma step_visited:
  "step C E s = Inr s' \<Longrightarrow> queue s = url # rest \<Longrightarrow>
     (url |\<in>| visited s \<and> s' = s\<lparr>queue := rest\<rparr>) \<or>
     (url |\<notin>| visited s \<and> visited s' = finsert url (visited s))"
  by (auto simp: step_def Let_def split: sum.splits if_splits prod.splits dest!: extract_url_frame)

text \<open>The loop ends: every pass either visits a new page, of which the budget allows finitely
  many, or shortens the queue.\<close>

termination crawl
proof (relation "measures [\<lambda>(C, E, s). nat (MAX_PAGES C - int (fcard (visited s))),
                           \<lambda>(C, E, s). length (queue s)]", goal_cases)
  case 1
  show ?case by simp
next
  case (2 C E s s')
  then obtain url rest where q: "queue s = url # rest"
    by (cases "queue s") (auto simp: loop_cond_def)
  from step_visited [OF 2(2) q] 2(1) q show ?case
    by (auto simp: loop_cond_def fcard_finsert_disjoint)
qed

declare crawl.simps [simp del]


lemma iterate_distinct: "distinct xs \<Longrightarrow> distinct (iterate E xs)"
  by (simp add: iterate_def Let_def)

lemma iterate_set [simp]: "set (iterate E xs) = set xs"
  by (simp add: iterate_def Let_def)

lemma iterate_length: "distinct xs \<Longrightarrow> length (iterate E xs) = length xs"
  by (metis distinct_card iterate_distinct iterate_set)

lemma iterate_Nil [simp]: "iterate E [] = []"
  using iterate_set [of E "[]"] by (simp del: iterate_set)

lemma iterate_single [simp]: "iterate E [x] = [x]"
proof -
  have "set (iterate E [x]) = {x}" "length (iterate E [x]) = 1"
    by (simp_all add: iterate_length)
  then show ?thesis
    by (cases "iterate E [x]") auto
qed


lemma set_add_set [simp]: "set (set_add xs x) = insert x (set xs)"
  by (auto simp: set_add_def)

lemma set_add_distinct: "distinct xs \<Longrightarrow> distinct (set_add xs x)"
  by (simp add: set_add_def)

lemma foldl_set_add_distinct: "distinct xs \<Longrightarrow> distinct (foldl set_add xs ys)"
  by (induction ys arbitrary: xs) (simp_all add: set_add_distinct)

lemma foldl_set_add_set [simp]: "set (foldl set_add xs ys) = set xs \<union> set ys"
  by (induction ys arbitrary: xs) auto

lemma seed_set_distinct: "seed_set C = Inr seeds \<Longrightarrow> distinct seeds \<and> seeds \<noteq> []"
  by (auto simp: seed_set_def Let_def foldl_set_add_distinct
      split: option.splits list_file.splits if_splits)

lemma push_links_eq:
  "distinct ls \<Longrightarrow>
   push_links s ls =
     s\<lparr>queue := queue s @ filter (\<lambda>l. l |\<notin>| visited s \<and> l \<notin> set (queue s)) ls\<rparr>"
proof (induction ls arbitrary: s)
  case Nil
  show ?case by simp
next
  case (Cons l ls)
  then have "l \<notin> set ls" "distinct ls" by auto
  then have "filter (\<lambda>x. x |\<notin>| visited s \<and> x \<noteq> l \<and> x \<notin> set (queue s)) ls
             = filter (\<lambda>x. x |\<notin>| visited s \<and> x \<notin> set (queue s)) ls"
    by (intro filter_cong) auto
  with Cons show ?case by simp
qed

lemma run_invariant:
  assumes "\<And>s s'. P s \<Longrightarrow> loop_cond C s \<Longrightarrow> step C E s = Inr s' \<Longrightarrow> P s'"
    and "P s0" and "run C E n s0 = Inr s"
  shows "P s"
  using assms(2,3)
proof (induction n arbitrary: s0)
  case 0
  then show ?case by simp
next
  case (Suc n)
  then show ?case
    by (auto split: if_splits sum.splits intro: assms(1))
qed

lemma run_add:
  "run C E n s0 = Inr s \<Longrightarrow> run C E m s = Inr s' \<Longrightarrow> run C E (n + m) s0 = Inr s'"
proof (induction n arbitrary: s0)
  case 0
  then show ?case by simp
next
  case (Suc n)
  show ?case
  proof (cases "loop_cond C s0")
    case True
    with Suc show ?thesis by (auto split: sum.splits)
  next
    case False
    with Suc.prems have "s = s0" by simp
    with False Suc.prems show ?thesis by (cases m) auto
  qed
qed

lemma run_stable: "\<not> loop_cond C s \<Longrightarrow> run C E n s = Inr s"
  by (cases n) auto

lemma crawl_run:
  "\<exists>n. crawl C E s0 = run C E n s0 \<and> (\<forall>s. run C E n s0 = Inr s \<longrightarrow> \<not> loop_cond C s)"
proof (induction C E s0 rule: crawl.induct)
  case (1 C E s)
  show ?case
  proof (cases "loop_cond C s")
    case False
    then have "crawl C E s = run C E 0 s \<and> (\<forall>t. run C E 0 s = Inr t \<longrightarrow> \<not> loop_cond C t)"
      by (simp add: crawl.simps [of C E s])
    then show ?thesis by blast
  next
    case True
    show ?thesis
    proof (cases "step C E s")
      case (Inl e)
      with True have "crawl C E s = run C E (Suc 0) s
          \<and> (\<forall>t. run C E (Suc 0) s = Inr t \<longrightarrow> \<not> loop_cond C t)"
        by (simp add: crawl.simps [of C E s])
      then show ?thesis by blast
    next
      case (Inr s')
      from 1 [OF True Inr] obtain n where
        n: "crawl C E s' = run C E n s'" "\<forall>t. run C E n s' = Inr t \<longrightarrow> \<not> loop_cond C t"
        by blast
      from True Inr n(1) have "crawl C E s = run C E (Suc n) s"
        by (simp add: crawl.simps [of C E s])
      moreover from True Inr n(2) have "\<forall>t. run C E (Suc n) s = Inr t \<longrightarrow> \<not> loop_cond C t"
        by simp
      ultimately show ?thesis by blast
    qed
  qed
qed

subsection \<open>The keys of \<^verbatim>\<open>parse_qs\<close>\<close>

lemma after_Nil [simp]: "after c [] = []"
  by (simp add: after_def)

lemma parse_qsl_names: "map fst (parse_qsl E qs) = map (unquote_plus E) (nonblank_names qs)"
proof -
  have "map fst (concat (map (\<lambda>name_value.
             if name_value \<noteq> [] then
               (let name = before CHR ''='' name_value;
                    val = after CHR ''='' name_value
                in if val \<noteq> [] then [(unquote_plus E name, unquote_plus E val)] else [])
             else []) fs))
        = map (unquote_plus E) (map (before CHR ''='') (filter (\<lambda>f. after CHR ''='' f \<noteq> []) fs))"
    for fs
    by (induction fs) (auto simp: Let_def)
  then show ?thesis
    by (cases "qs = []") (simp_all add: parse_qsl_def nonblank_names_def)
qed

lemma dict_append_keys:
  "map fst (dict_append d (n, v)) = (if n \<in> set (map fst d) then map fst d else map fst d @ [n])"
  by (auto simp: dict_append_def intro!: map_idI split: prod.splits)

lemma foldl_dict_append_keys:
  "map fst (foldl dict_append d nvs) = foldl set_add (map fst d) (map fst nvs)"
proof (induction nvs arbitrary: d)
  case Nil
  show ?case by simp
next
  case (Cons nv nvs)
  obtain n v where nv: "nv = (n, v)" by (cases nv)
  show ?case
    by (simp add: nv Cons dict_append_keys set_add_def)
qed

lemma parse_qs_keys: "map fst (parse_qs E qs) = foldl set_add [] (map (unquote_plus E) (nonblank_names qs))"
  by (simp add: parse_qs_def foldl_dict_append_keys parse_qsl_names)

lemma sort_set_add_remdups: "sort (foldl set_add [] xs) = sort (remdups xs)"
proof (rule sorted_distinct_set_unique)
  show "distinct (sort (foldl set_add [] xs))"
    by (simp add: foldl_set_add_distinct)
qed simp_all

lemma sorted_keys:
  "sort (map fst (parse_qs E qs)) = sort (remdups (map (unquote_plus E) (nonblank_names qs)))"
  by (simp add: parse_qs_keys sort_set_add_remdups)

lemma normalize_param_signature_eq:
  "urlparse E url = Inr p \<Longrightarrow>
   normalize_param_signature E url =
     Inr (let names = sort (remdups (map (unquote_plus E) (nonblank_names (query p))))
          in if names = [] then path p else path p @ ''?params='' @ str_join ''&'' names)"
  by (simp add: normalize_param_signature_def sorted_keys Let_def)

lemma nonblank_names_all_blank:
  "list_all (\<lambda>f. after CHR ''='' f = []) (str_split CHR ''&'' qs) \<Longrightarrow> nonblank_names qs = []"
  by (simp add: nonblank_names_def list_all_iff filter_empty_conv)

lemma nonblank_names_Nil [simp]: "nonblank_names [] = []"
  by (simp add: nonblank_names_def)

subsection \<open>Evaluating the URL functions\<close>

lemmas url_defs = urlparse_def urlsplit_def split_scheme_def splitnetloc_def clean_url_def
  checknetloc_def before_def after_def is_ascii_def is_ascii_alpha_def is_digit_def
  scheme_chars_def lower_char_def uses_params_def splitparams_def Let_def

lemmas signature_defs = normalize_param_signature_def parse_qs_def parse_qsl_def
  unquote_plus_def unquote_def dict_append_def

lemma sort_remdups_set_cong: "set xs = set ys \<Longrightarrow> sort (remdups xs) = sort (remdups ys)"
  by (metis sorted_list_of_set_sort_remdups)

section \<open>Signatures of URLs that differ in parameter values\<close>

text \<open>
  Claim C6, as stated, fails: \<^verbatim>\<open>?id=1\<close> and \<^verbatim>\<open>?id=\<close> differ in the value of \<^verbatim>\<open>id\<close>
  only, and their signatures differ.
\<close>

theorem signature_of_blank_value_counterexample:
  "differ_only_in_parameter_values (example_env (\<lambda>_. Timeout)) ''http://h/p?id=1'' ''http://h/p?id=''
   \<and> normalize_param_signature (example_env (\<lambda>_. Timeout)) ''http://h/p?id=1'' = Inr ''/p?params=id''
   \<and> normalize_param_signature (example_env (\<lambda>_. Timeout)) ''http://h/p?id='' = Inr ''/p''"
  by code_simp

text \<open>
  Claim C6, amended. The signature is a function of the URL, and two URLs with the same
  path whose parameters with a non-empty value have the same set of names have the same
  signature, whatever the values are.
\<close>

theorem signature_depends_on_names_only:
  assumes "urlparse E u1 = Inr p1" and "urlparse E u2 = Inr p2"
    and "path p1 = path p2"
    and "set (nonblank_names (query p1)) = set (nonblank_names (query p2))"
  shows "normalize_param_signature E u1 = normalize_param_signature E u2"
proof -
  from assms(4) have "set (map (unquote_plus E) (nonblank_names (query p1)))
      = set (map (unquote_plus E) (nonblank_names (query p2)))"
    by simp
  then have "sort (remdups (map (unquote_plus E) (nonblank_names (query p1))))
      = sort (remdups (map (unquote_plus E) (nonblank_names (query p2))))"
    by (rule sort_remdups_set_cong)
  with assms(1-3) show ?thesis
    by (simp add: normalize_param_signature_eq Let_def)
qed

theorem signature_depends_on_names_only_witness:
  "urlparse (example_env (\<lambda>_. Timeout)) ''http://h/p?id=1&x=2''
     = Inr \<lparr>scheme = ''http'', netloc = ''h'', path = ''/p'', params = [], query = ''id=1&x=2'',
            fragment = []\<rparr>
   \<and> urlparse (example_env (\<lambda>_. Timeout)) ''http://h/p?x=7&id=9&x=8''
     = Inr \<lparr>scheme = ''http'', netloc = ''h'', path = ''/p'', params = [],
            query = ''x=7&id=9&x=8'', fragment = []\<rparr>
   \<and> set (nonblank_names ''id=1&x=2'') = set (nonblank_names ''x=7&id=9&x=8'')
   \<and> normalize_param_signature (example_env (\<lambda>_. Timeout)) ''http://h/p?id=1&x=2''
     = normalize_param_signature (example_env (\<lambda>_. Timeout)) ''http://h/p?x=7&id=9&x=8''"
proof -
  let ?E = "example_env (\<lambda>_. Timeout)"
  let ?p1 = "\<lparr>scheme = ''http'', netloc = ''h'', path = ''/p'', params = [], query = ''id=1&x=2'',
            fragment = []\<rparr>"
  let ?p2 = "\<lparr>scheme = ''http'', netloc = ''h'', path = ''/p'', params = [],
            query = ''x=7&id=9&x=8'', fragment = []\<rparr>"
  have h1: "urlparse ?E ''http://h/p?id=1&x=2'' = Inr ?p1" by code_simp
  have h2: "urlparse ?E ''http://h/p?x=7&id=9&x=8'' = Inr ?p2" by code_simp
  have h3: "path ?p1 = path ?p2" by simp
  have h4: "set (nonblank_names (query ?p1)) = set (nonblank_names (query ?p2))"
    by (simp add: nonblank_names_def before_def after_def insert_commute)
  from signature_depends_on_names_only [OF h1 h2 h3 h4] h1 h2 h4 show ?thesis by simp
qed

subsection \<open>One call of \<^verbatim>\<open>extract\<close>\<close>

lemma admitted_start: "admitted C E s0 [] s0"
  by (simp add: admitted_def)

lemma admitted_step_plain:
  assumes "admitted C E s0 links s" and "\<not> DEDUP_PARAM_SIG C"
    and "is_valid E (allowed_domains s) u = Inr True"
  shows "admitted C E s0 (set_add links u) s"
  using assms by (auto simp: admitted_def set_add_def)

lemma admitted_step_dedup:
  assumes "admitted C E s0 links s" and "DEDUP_PARAM_SIG C"
    and "is_valid E (allowed_domains s) u = Inr True"
    and "normalize_param_signature E u = Inr sg" and "sg |\<notin>| seen_param_signatures s"
  shows "admitted C E s0 (set_add links u)
           (s\<lparr>seen_param_signatures := finsert sg (seen_param_signatures s)\<rparr>)"
proof -
  from assms(1,2,4,5) have new: "u \<notin> set links" "sg |\<notin>| seen_param_signatures s0"
    by (auto simp: admitted_def)
  from assms(1,2,4,5) have other: "\<forall>l\<in>set links. normalize_param_signature E l \<noteq> Inr sg"
    by (auto simp: admitted_def)
  show ?thesis
    unfolding admitted_def
  proof (intro conjI)
    show "distinct (set_add links u)"
      using assms(1) by (simp add: admitted_def set_add_distinct)
    show "\<forall>l\<in>set (set_add links u). is_valid E (allowed_domains s0) l = Inr True"
      using assms(1,3) by (auto simp: admitted_def)
    show "if DEDUP_PARAM_SIG C
      then (\<forall>l\<in>set (set_add links u). \<exists>sg'. normalize_param_signature E l = Inr sg'
                \<and> sg' |\<in>| seen_param_signatures
                     (s\<lparr>seen_param_signatures := finsert sg (seen_param_signatures s)\<rparr>)
                \<and> sg' |\<notin>| seen_param_signatures s0)
           \<and> (\<forall>l\<in>set (set_add links u). \<forall>l'\<in>set (set_add links u).
                normalize_param_signature E l = normalize_param_signature E l' \<longrightarrow> l = l')
           \<and> (\<forall>sg'. sg' |\<in>| seen_param_signatures
                     (s\<lparr>seen_param_signatures := finsert sg (seen_param_signatures s)\<rparr>)
                \<longrightarrow> sg' |\<in>| seen_param_signatures s0
                \<or> (\<exists>l\<in>set (set_add links u). normalize_param_signature E l = Inr sg'))
      else seen_param_signatures
             (s\<lparr>seen_param_signatures := finsert sg (seen_param_signatures s)\<rparr>)
           = seen_param_signatures s0"
    proof (simp only: assms(2) if_True, intro conjI ballI allI impI)
      fix l assume "l \<in> set (set_add links u)"
      then show "\<exists>sg'. normalize_param_signature E l = Inr sg'
                \<and> sg' |\<in>| seen_param_signatures
                     (s\<lparr>seen_param_signatures := finsert sg (seen_param_signatures s)\<rparr>)
                \<and> sg' |\<notin>| seen_param_signatures s0"
        using assms(1,2,4) new by (auto simp: admitted_def)
    next
      fix l l' assume "l \<in> set (set_add links u)" "l' \<in> set (set_add links u)"
        "normalize_param_signature E l = normalize_param_signature E l'"
      then show "l = l'"
        using assms(1,2,4) other by (auto simp: admitted_def)
    next
      fix sg' assume "sg' |\<in>| seen_param_signatures
                     (s\<lparr>seen_param_signatures := finsert sg (seen_param_signatures s)\<rparr>)"
      then show "sg' |\<in>| seen_param_signatures s0
                \<or> (\<exists>l\<in>set (set_add links u). normalize_param_signature E l = Inr sg')"
        using assms(1,2,4) by (auto simp: admitted_def)
    qed
  qed (use assms(1) in \<open>auto simp: admitted_def\<close>)
qed

lemma extract_links_admitted:
  "extract_links C E hs links s = Inr (links', s') \<Longrightarrow> admitted C E s0 links s
     \<Longrightarrow> admitted C E s0 links' s'"
proof (induction hs arbitrary: links s)
  case Nil
  then show ?case by simp
next
  case (Cons h hs)
  from Cons.prems(1) obtain u ok where h: "h = Inr u"
    and ok: "is_valid E (allowed_domains s) u = Inr ok"
    by (auto split: sum.splits)
  show ?case
  proof (cases ok)
    case False
    with Cons h ok show ?thesis by simp
  next
    case True
    show ?thesis
    proof (cases "DEDUP_PARAM_SIG C")
      case False
      with Cons.prems h ok True have "extract_links C E hs (set_add links u) s = Inr (links', s')"
        by simp
      moreover have "admitted C E s0 (set_add links u) s"
        using admitted_step_plain [OF Cons.prems(2) False] ok True by simp
      ultimately show ?thesis by (rule Cons.IH)
    next
      case dedup: True
      from Cons.prems(1) h ok True dedup obtain sg where
        sg: "normalize_param_signature E u = Inr sg"
        by (auto split: sum.splits)
      show ?thesis
      proof (cases "sg |\<in>| seen_param_signatures s")
        case True
        with Cons h ok \<open>ok\<close> dedup sg show ?thesis by simp
      next
        case False
        with Cons.prems h ok \<open>ok\<close> dedup sg have
          "extract_links C E hs (set_add links u)
             (s\<lparr>seen_param_signatures := finsert sg (seen_param_signatures s)\<rparr>) = Inr (links', s')"
          by simp
        moreover have "admitted C E s0 (set_add links u)
             (s\<lparr>seen_param_signatures := finsert sg (seen_param_signatures s)\<rparr>)"
          using admitted_step_dedup [OF Cons.prems(2) dedup _ sg False] ok \<open>ok\<close> by simp
        ultimately show ?thesis by (rule Cons.IH)
      qed
    qed
  qed
qed

lemma extract_url_admitted:
  "extract_url C E s url = Inr (links, s') \<Longrightarrow> admitted C E s links s'"
  by (auto simp: extract_url_def admitted_start split: response.splits
      intro: extract_links_admitted [OF _ admitted_start])

subsection \<open>The state after \<^verbatim>\<open>load_urls\<close>\<close>

lemma add_domains_result:
  "add_domains E us A = Inr B \<Longrightarrow>
     A |\<subseteq>| B
     \<and> (\<forall>u\<in>set us. \<exists>p. urlparse E u = Inr p \<and> netloc p |\<in>| B)
     \<and> (\<forall>d. d |\<in>| B \<longrightarrow> d |\<in>| A \<or> (\<exists>u\<in>set us. \<exists>p. urlparse E u = Inr p \<and> netloc p = d))"
proof (induction us arbitrary: A)
  case Nil
  then show ?case by auto
next
  case (Cons u us)
  from Cons.prems obtain p where p: "urlparse E u = Inr p"
    and r: "add_domains E us (finsert (netloc p) A) = Inr B"
    by (auto split: sum.splits)
  from Cons.IH [OF r] p show ?case
    by (auto simp: less_eq_fset.rep_eq)
qed

lemma load_urls_state:
  assumes "load_urls C E = Inr s0"
  shows "\<exists>seeds. seed_set C = Inr seeds \<and> queue s0 = iterate E seeds
      \<and> add_domains E (iterate E seeds) {||} = Inr (allowed_domains s0)
      \<and> visited s0 = {||} \<and> found s0 = {||} \<and> seen_param_signatures s0 = {||}
      \<and> visit_log s0 = []"
  using assms by (auto simp: load_urls_def split: sum.splits)

lemma load_urls_queue:
  assumes "load_urls C E = Inr s0"
  shows "distinct (queue s0)" and "queue s0 \<noteq> []"
proof -
  from load_urls_state [OF assms] obtain seeds where
    s: "seed_set C = Inr seeds" "queue s0 = iterate E seeds" by blast
  from seed_set_distinct [OF s(1)] have d: "distinct seeds" "seeds \<noteq> []" by simp_all
  from d(1) show "distinct (queue s0)" by (simp add: s(2) iterate_distinct)
  from d have "length (iterate E seeds) \<noteq> 0" by (simp add: iterate_length)
  then show "queue s0 \<noteq> []" by (simp add: s(2))
qed

lemma load_urls_seeds:
  assumes "load_urls C E = Inr s0" and "seed_set C = Inr seeds"
  shows "set (queue s0) = set seeds"
  using load_urls_state [OF assms(1)] assms(2) by auto

lemma load_urls_domains:
  assumes "load_urls C E = Inr s0"
  shows "(\<forall>u\<in>set (queue s0). \<exists>p. urlparse E u = Inr p \<and> netloc p |\<in>| allowed_domains s0)
     \<and> (\<forall>d. d |\<in>| allowed_domains s0 \<longrightarrow>
           (\<exists>u\<in>set (queue s0). \<exists>p. urlparse E u = Inr p \<and> netloc p = d))"
proof -
  from load_urls_state [OF assms] obtain seeds where
    s: "queue s0 = iterate E seeds"
       "add_domains E (iterate E seeds) {||} = Inr (allowed_domains s0)" by blast
  from add_domains_result [OF s(2)] show ?thesis
    unfolding s(1) by blast
qed

subsection \<open>One pass of the loop\<close>

lemma step_fresh:
  assumes st: "step C E s = Inr s'" and q: "queue s = url # rest" and nv: "url |\<notin>| visited s"
  shows "\<exists>links s2.
       extract_url C E (s\<lparr>queue := rest, visited := finsert url (visited s),
                         visit_log := visit_log s @ [url]\<rparr>) url = Inr (links, s2)
     \<and> admitted C E (s\<lparr>queue := rest, visited := finsert url (visited s),
                        visit_log := visit_log s @ [url]\<rparr>) links s2
     \<and> visited s' = finsert url (visited s)
     \<and> visit_log s' = visit_log s @ [url]
     \<and> queue s' = rest @ filter (\<lambda>l. l |\<notin>| finsert url (visited s) \<and> l \<notin> set rest) (iterate E links)
     \<and> found s' = found s |\<union>| fset_of_list links
     \<and> allowed_domains s' = allowed_domains s
     \<and> seen_param_signatures s' = seen_param_signatures s2
     \<and> 0 \<le> DELAY C \<and> (\<exists>p. urlparse E url = Inr p)"
proof -
  let ?s1 = "s\<lparr>queue := rest, visited := finsert url (visited s),
               visit_log := visit_log s @ [url]\<rparr>"
  from st q nv obtain p links s2 where p: "urlparse E url = Inr p"
    and ex: "extract_url C E ?s1 url = Inr (links, s2)"
    and d: "\<not> DELAY C < 0"
    and s': "s' = (push_links s2 (iterate E links))
                    \<lparr>found := found (push_links s2 (iterate E links)) |\<union>| fset_of_list links\<rparr>"
    by (auto simp: step_def Let_def split: sum.splits if_splits prod.splits)
  from extract_url_admitted [OF ex] have ad: "admitted C E ?s1 links s2" .
  then have fr: "distinct links" "visited s2 = finsert url (visited s)" "queue s2 = rest"
    "found s2 = found s" "allowed_domains s2 = allowed_domains s"
    "visit_log s2 = visit_log s @ [url]"
    by (simp_all add: admitted_def)
  have pl: "push_links s2 (iterate E links)
      = s2\<lparr>queue := queue s2 @ filter (\<lambda>l. l |\<notin>| visited s2 \<and> l \<notin> set (queue s2)) (iterate E links)\<rparr>"
    by (rule push_links_eq) (simp add: iterate_distinct fr(1))
  have c1: "visited s' = finsert url (visited s)" by (simp add: s' pl fr)
  have c2: "visit_log s' = visit_log s @ [url]" by (simp add: s' pl fr)
  have c3: "queue s' = rest @ filter (\<lambda>l. l |\<notin>| finsert url (visited s) \<and> l \<notin> set rest) (iterate E links)"
    by (simp add: s' pl fr)
  have c4: "found s' = found s |\<union>| fset_of_list links" by (simp add: s' pl fr)
  have c5: "allowed_domains s' = allowed_domains s" by (simp add: s' pl fr)
  have c6: "seen_param_signatures s' = seen_param_signatures s2" by (simp add: s' pl)
  from d have c7: "0 \<le> DELAY C" by simp
  from ex ad c1 c2 c3 c4 c5 c6 c7 p show ?thesis by blast
qed

lemma crawl_inv_start:
  assumes "distinct (queue s0)" and "visited s0 = {||}" and "found s0 = {||}"
    and "seen_param_signatures s0 = {||}" and "visit_log s0 = []"
  shows "crawl_inv C E s0 s0"
  using assms by (simp add: crawl_inv_def)

lemma crawl_inv_head:
  assumes "crawl_inv C E s0 s" and "queue s = url # rest"
  shows "url |\<notin>| visited s"
proof -
  from assms have "url \<notin> set (visit_log s)" "fset (visited s) = set (visit_log s)"
    by (auto simp: crawl_inv_def)
  then show ?thesis by simp
qed

lemma crawl_inv_step:
  assumes inv: "crawl_inv C E s0 s" and lc: "loop_cond C s" and st: "step C E s = Inr s'"
  shows "crawl_inv C E s0 s'"
proof -
  from lc obtain url rest where q: "queue s = url # rest"
    by (cases "queue s") (auto simp: loop_cond_def)
  from crawl_inv_head [OF inv q] have nv: "url |\<notin>| visited s" .
  let ?s1 = "s\<lparr>queue := rest, visited := finsert url (visited s),
               visit_log := visit_log s @ [url]\<rparr>"
  from step_fresh [OF st q nv] obtain links s2 where
    ad: "admitted C E ?s1 links s2"
    and v: "visited s' = finsert url (visited s)"
    and l: "visit_log s' = visit_log s @ [url]"
    and qu: "queue s' = rest @ filter (\<lambda>l. l |\<notin>| finsert url (visited s) \<and> l \<notin> set rest) (iterate E links)"
    and f: "found s' = found s |\<union>| fset_of_list links"
    and a: "allowed_domains s' = allowed_domains s"
    and sn: "seen_param_signatures s' = seen_param_signatures s2"
    by blast
  from inv have i1: "distinct (visit_log s @ queue s)"
    and i2: "fset (visited s) = set (visit_log s)"
    and i3: "allowed_domains s = allowed_domains s0"
    and i5: "\<forall>u. u |\<in>| found s \<longrightarrow> is_valid E (allowed_domains s0) u = Inr True"
    by (simp_all add: crawl_inv_def)
  from inv obtain new where i4: "visit_log s @ queue s = queue s0 @ new"
    "set new \<subseteq> fset (found s)"
    by (auto simp: crawl_inv_def)
  from ad have dl: "distinct links"
    and val: "\<forall>l\<in>set links. is_valid E (allowed_domains s) l = Inr True"
    and sub: "seen_param_signatures s |\<subseteq>| seen_param_signatures s2"
    by (simp_all add: admitted_def)
  have vm: "\<And>x. x |\<in>| visited s \<longleftrightarrow> x \<in> set (visit_log s)"
    using i2 by auto
  have g1: "distinct (visit_log s' @ queue s')"
    using i1 dl by (auto simp: l qu q vm iterate_distinct)
  have g2: "fset (visited s') = set (visit_log s')"
    using i2 by (simp add: v l)
  have g3: "allowed_domains s' = allowed_domains s0"
    by (simp add: a i3)
  have g4: "\<exists>new'. visit_log s' @ queue s' = queue s0 @ new' \<and> set new' \<subseteq> fset (found s')"
  proof (intro exI conjI)
    let ?n = "filter (\<lambda>l. l |\<notin>| finsert url (visited s) \<and> l \<notin> set rest) (iterate E links)"
    from i4(1) show "visit_log s' @ queue s' = queue s0 @ (new @ ?n)"
      by (simp add: l qu q)
    from i4(2) show "set (new @ ?n) \<subseteq> fset (found s')"
      by (auto simp: f fset_of_list.rep_eq)
  qed
  have g5: "\<forall>u. u |\<in>| found s' \<longrightarrow> is_valid E (allowed_domains s0) u = Inr True"
    using i5 val by (auto simp: f i3 fset_of_list_elem)
  have g6: "if DEDUP_PARAM_SIG C
          then (\<forall>u. u |\<in>| found s' \<longrightarrow>
                  (\<exists>sg. normalize_param_signature E u = Inr sg \<and> sg |\<in>| seen_param_signatures s'))
               \<and> (\<forall>u v. u |\<in>| found s' \<longrightarrow> v |\<in>| found s' \<longrightarrow>
                     normalize_param_signature E u = normalize_param_signature E v \<longrightarrow> u = v)
               \<and> (\<forall>sg. sg |\<in>| seen_param_signatures s' \<longrightarrow>
                     (\<exists>u. u |\<in>| found s' \<and> normalize_param_signature E u = Inr sg))
          else seen_param_signatures s' = {||}"
  proof (cases "DEDUP_PARAM_SIG C")
    case False
    with inv ad show ?thesis by (simp add: crawl_inv_def admitted_def sn)
  next
    case True
    from inv True have d1: "\<forall>u. u |\<in>| found s \<longrightarrow>
          (\<exists>sg. normalize_param_signature E u = Inr sg \<and> sg |\<in>| seen_param_signatures s)"
      and d2: "\<forall>u v. u |\<in>| found s \<longrightarrow> v |\<in>| found s \<longrightarrow>
          normalize_param_signature E u = normalize_param_signature E v \<longrightarrow> u = v"
      and d3: "\<forall>sg. sg |\<in>| seen_param_signatures s \<longrightarrow>
          (\<exists>u. u |\<in>| found s \<and> normalize_param_signature E u = Inr sg)"
      by (simp_all add: crawl_inv_def)
    from ad True have a1: "\<forall>l\<in>set links. \<exists>sg. normalize_param_signature E l = Inr sg
          \<and> sg |\<in>| seen_param_signatures s2 \<and> sg |\<notin>| seen_param_signatures s"
      and a2: "\<forall>l\<in>set links. \<forall>l'\<in>set links.
          normalize_param_signature E l = normalize_param_signature E l' \<longrightarrow> l = l'"
      and a3: "\<forall>sg. sg |\<in>| seen_param_signatures s2 \<longrightarrow> sg |\<in>| seen_param_signatures s
          \<or> (\<exists>l\<in>set links. normalize_param_signature E l = Inr sg)"
      by (simp_all add: admitted_def)
    have h1: "\<forall>u. u |\<in>| found s' \<longrightarrow>
          (\<exists>sg. normalize_param_signature E u = Inr sg \<and> sg |\<in>| seen_param_signatures s')"
    proof (intro allI impI)
      fix u assume "u |\<in>| found s'"
      then consider "u |\<in>| found s" | "u \<in> set links"
        by (auto simp: f fset_of_list_elem)
      then show "\<exists>sg. normalize_param_signature E u = Inr sg \<and> sg |\<in>| seen_param_signatures s'"
      proof cases
        case 1
        with d1 obtain sg where "normalize_param_signature E u = Inr sg"
          "sg |\<in>| seen_param_signatures s" by blast
        with sub show ?thesis unfolding sn by blast
      next
        case 2
        with a1 show ?thesis unfolding sn by blast
      qed
    qed
    have h2: "\<forall>u v. u |\<in>| found s' \<longrightarrow> v |\<in>| found s' \<longrightarrow>
          normalize_param_signature E u = normalize_param_signature E v \<longrightarrow> u = v"
    proof (intro allI impI)
      fix u v assume u: "u |\<in>| found s'" and v: "v |\<in>| found s'"
        and e: "normalize_param_signature E u = normalize_param_signature E v"
      have cross: "x = y" if "x |\<in>| found s" "y \<in> set links"
        "normalize_param_signature E x = normalize_param_signature E y" for x y
      proof -
        from d1 that(1) obtain sg where "normalize_param_signature E x = Inr sg"
          "sg |\<in>| seen_param_signatures s" by blast
        moreover from a1 that(2) obtain sg' where "normalize_param_signature E y = Inr sg'"
          "sg' |\<notin>| seen_param_signatures s" by blast
        ultimately show ?thesis using that(3) by auto
      qed
      from u consider "u |\<in>| found s" | "u \<in> set links"
        by (auto simp: f fset_of_list_elem)
      then show "u = v"
      proof cases
        case 1
        from v consider "v |\<in>| found s" | "v \<in> set links"
          by (auto simp: f fset_of_list_elem)
        then show ?thesis
        proof cases
          case 1
          with \<open>u |\<in>| found s\<close> d2 e show ?thesis by blast
        next
          case 2
          with \<open>u |\<in>| found s\<close> e cross show ?thesis by blast
        qed
      next
        case 2
        from v consider "v |\<in>| found s" | "v \<in> set links"
          by (auto simp: f fset_of_list_elem)
        then show ?thesis
        proof cases
          case 1
          with \<open>u \<in> set links\<close> e cross [of v u] show ?thesis by simp
        next
          case 2
          with \<open>u \<in> set links\<close> a2 e show ?thesis by blast
        qed
      qed
    qed
    have h3: "\<forall>sg. sg |\<in>| seen_param_signatures s' \<longrightarrow>
          (\<exists>u. u |\<in>| found s' \<and> normalize_param_signature E u = Inr sg)"
    proof (intro allI impI)
      fix sg assume "sg |\<in>| seen_param_signatures s'"
      with a3 consider "sg |\<in>| seen_param_signatures s"
        | "\<exists>l\<in>set links. normalize_param_signature E l = Inr sg"
        unfolding sn by blast
      then show "\<exists>u. u |\<in>| found s' \<and> normalize_param_signature E u = Inr sg"
      proof cases
        case 1
        with d3 obtain u where "u |\<in>| found s" "normalize_param_signature E u = Inr sg"
          by blast
        then show ?thesis by (auto simp: f)
      next
        case 2
        then show ?thesis by (auto simp: f fset_of_list_elem)
      qed
    qed
    from True h1 h2 h3 show ?thesis by simp
  qed
  show ?thesis
    unfolding crawl_inv_def
    by (intro conjI) (rule g1 g2 g3 g4 g5 g6)+
qed

lemma crawl_inv_run:
  assumes "load_urls C E = Inr s0" and "run C E n s0 = Inr s"
  shows "crawl_inv C E s0 s"
proof -
  from load_urls_state [OF assms(1)] load_urls_queue(1) [OF assms(1)]
  have init: "crawl_inv C E s0 s0"
    by (auto intro: crawl_inv_start)
  show ?thesis
  proof (rule run_invariant [where P = "crawl_inv C E s0" and C = C and E = E])
    show "crawl_inv C E s0 s0" by (rule init)
    show "run C E n s0 = Inr s" by (rule assms(2))
  qed (rule crawl_inv_step)
qed

lemma budget_step:
  assumes "int (fcard (visited s)) \<le> max 0 (MAX_PAGES C)" and "loop_cond C s"
    and "step C E s = Inr s'"
  shows "int (fcard (visited s')) \<le> max 0 (MAX_PAGES C)"
proof -
  from assms(2) obtain url rest where q: "queue s = url # rest"
    by (cases "queue s") (auto simp: loop_cond_def)
  from step_visited [OF assms(3) q] assms(1,2) show ?thesis
    by (auto simp: loop_cond_def fcard_finsert_disjoint)
qed

lemma budget_run:
  assumes "visited s0 = {||}" and "run C E n s0 = Inr s"
  shows "int (fcard (visited s)) \<le> max 0 (MAX_PAGES C)"
proof -
  from assms(1) have init: "int (fcard (visited s0)) \<le> max 0 (MAX_PAGES C)"
    by (simp add: fcard_fempty)
  show ?thesis
  proof (rule run_invariant [where P = "\<lambda>s. int (fcard (visited s)) \<le> max 0 (MAX_PAGES C)"
        and C = C and E = E])
    show "int (fcard (visited s0)) \<le> max 0 (MAX_PAGES C)" by (rule init)
    show "run C E n s0 = Inr s" by (rule assms(2))
  qed (rule budget_step)
qed

subsection \<open>Where \<^verbatim>\<open>urlparse\<close> raises\<close>

lemma urlsplit_cases:
  "(netloc_accepted E (authority url) \<and> (\<exists>r. urlsplit E url = Inr r \<and> netloc r = authority url))
   \<or> (\<not> netloc_accepted E (authority url) \<and> urlsplit E url = Inl ValueError)"
proof -
  obtain sch url1 where s1: "split_scheme (clean_url url) = (sch, url1)"
    by (cases "split_scheme (clean_url url)")
  obtain nl url2 where s2:
    "(if take 2 url1 = ''//'' then splitnetloc url1 else ([], url1)) = (nl, url2)"
    by (cases "if take 2 url1 = ''//'' then splitnetloc url1 else ([], url1)")
  have a: "authority url = nl"
    using s2 by (auto simp: authority_def s1 split: if_splits)
  show ?thesis
    unfolding a by (simp add: urlsplit_def s1 s2 Let_def netloc_accepted_def)
qed

lemma urlparse_cases:
  "(netloc_accepted E (authority url) \<and> (\<exists>p. urlparse E url = Inr p \<and> netloc p = authority url))
   \<or> (\<not> netloc_accepted E (authority url) \<and> urlparse E url = Inl ValueError)"
  using urlsplit_cases [of E url]
  by (auto simp: urlparse_def Let_def split: prod.splits)

lemma plain_netloc_accepted:
  assumes "list_all (\<lambda>c. is_ascii c \<and> c \<noteq> CHR ''['' \<and> c \<noteq> CHR '']'') nl"
  shows "netloc_accepted E nl"
proof -
  from assms have "CHR ''['' \<notin> set nl" "CHR '']'' \<notin> set nl" "list_all is_ascii nl"
    by (auto simp: list_all_iff)
  then show ?thesis
    by (simp add: netloc_accepted_def checknetloc_def)
qed

section \<open>The scope filter\<close>

text \<open>
  Claim C8, as stated, fails: \<^verbatim>\<open>urlparse\<close> raises \<open>ValueError\<close> on an authority with an
  unmatched bracket, and \<^verbatim>\<open>is_valid\<close> does not catch it.
\<close>

theorem is_valid_raises_counterexample:
  "is_valid (example_env (\<lambda>_. Timeout)) {|''h''|} ''http://['' = Inl ValueError"
  by code_simp

text \<open>
  Claim C8, amended. \<^verbatim>\<open>is_valid\<close> has no effect on the state (it is a function of the
  allowed domains and the URL). It returns a boolean exactly on the strings whose
  authority passes the checks of \<^verbatim>\<open>urlparse\<close>, whatever the rest of the string holds: in
  particular on every string whose authority is ASCII without square brackets. Whenever
  it returns, the result is True exactly when the scheme is \<^verbatim>\<open>http\<close> or \<^verbatim>\<open>https\<close> and
  the netloc is an allowed domain. On every other string it raises the \<open>ValueError\<close> of
  \<^verbatim>\<open>urlparse\<close>.
\<close>

theorem is_valid_total_on_accepted_authority:
  "((\<exists>b. is_valid E allowed url = Inr b) \<longleftrightarrow> netloc_accepted E (authority url))
   \<and> (list_all (\<lambda>c. is_ascii c \<and> c \<noteq> CHR ''['' \<and> c \<noteq> CHR '']'') (authority url)
        \<longrightarrow> (\<exists>b. is_valid E allowed url = Inr b))
   \<and> (\<forall>b. is_valid E allowed url = Inr b \<longrightarrow>
         (\<exists>p. urlparse E url = Inr p \<and> netloc p = authority url
            \<and> b = ((scheme p = ''http'' \<or> scheme p = ''https'') \<and> netloc p |\<in>| allowed)))
   \<and> (\<forall>e. is_valid E allowed url = Inl e \<longrightarrow>
         e = ValueError \<and> urlparse E url = Inl ValueError
         \<and> \<not> netloc_accepted E (authority url))"
proof (intro conjI impI allI)
  show "(\<exists>b. is_valid E allowed url = Inr b) \<longleftrightarrow> netloc_accepted E (authority url)"
    using urlparse_cases [of E url] by (auto simp: is_valid_def)
next
  assume "list_all (\<lambda>c. is_ascii c \<and> c \<noteq> CHR ''['' \<and> c \<noteq> CHR '']'') (authority url)"
  from plain_netloc_accepted [OF this, of E] urlparse_cases [of E url]
  show "\<exists>b. is_valid E allowed url = Inr b"
    by (auto simp: is_valid_def)
next
  fix b assume "is_valid E allowed url = Inr b"
  with urlparse_cases [of E url]
  show "\<exists>p. urlparse E url = Inr p \<and> netloc p = authority url
            \<and> b = ((scheme p = ''http'' \<or> scheme p = ''https'') \<and> netloc p |\<in>| allowed)"
    by (auto simp: is_valid_def split: sum.splits)
next
  fix e assume e: "is_valid E allowed url = Inl e"
  with urlparse_cases [of E url] show "e = ValueError"
    by (auto simp: is_valid_def split: sum.splits)
  from e urlparse_cases [of E url] show "urlparse E url = Inl ValueError"
    by (auto simp: is_valid_def split: sum.splits)
  from e urlparse_cases [of E url] show "\<not> netloc_accepted E (authority url)"
    by (auto simp: is_valid_def split: sum.splits)
qed

theorem is_valid_total_on_accepted_authority_witness:
  "authority ''http://h/p?a[]=1'' = ''h''
   \<and> list_all (\<lambda>c. is_ascii c \<and> c \<noteq> CHR ''['' \<and> c \<noteq> CHR '']'') (authority ''http://h/p?a[]=1'')
   \<and> netloc_accepted (example_env (\<lambda>_. Timeout)) (authority ''http://h/p?a[]=1'')
   \<and> is_valid (example_env (\<lambda>_. Timeout)) {|''h''|} ''http://h/p?a[]=1'' = Inr True
   \<and> is_valid (example_env (\<lambda>_. Timeout)) {|''h''|} ''not a url'' = Inr False
   \<and> authority ''http://['' = ''[''
   \<and> \<not> netloc_accepted (example_env (\<lambda>_. Timeout)) (authority ''http://['')
   \<and> is_valid (example_env (\<lambda>_. Timeout)) {|''h''|} ''http://['' = Inl ValueError
   \<and> urlparse (example_env (\<lambda>_. Timeout)) ''http://['' = Inl ValueError"
proof -
  let ?E = "example_env (\<lambda>_. Timeout)"
  have h0: "authority ''http://h/p?a[]=1'' = ''h''" by code_simp
  have h1: "list_all (\<lambda>c. is_ascii c \<and> c \<noteq> CHR ''['' \<and> c \<noteq> CHR '']'')
              (authority ''http://h/p?a[]=1'')"
    by code_simp
  have h2: "is_valid ?E {|''h''|} ''http://h/p?a[]=1'' = Inr True" by code_simp
  have h3: "is_valid ?E {|''h''|} ''http://['' = Inl ValueError" by code_simp
  have h4: "is_valid ?E {|''h''|} ''not a url'' = Inr False" by code_simp
  have h5: "authority ''http://['' = ''[''" by code_simp
  from is_valid_total_on_accepted_authority
      [of ?E "{|''h''|}" "''http://h/p?a[]=1''", THEN conjunct2, THEN conjunct1, THEN mp, OF h1]
  have e1: "\<exists>b. is_valid ?E {|''h''|} ''http://h/p?a[]=1'' = Inr b" .
  from is_valid_total_on_accepted_authority
      [of ?E "{|''h''|}" "''http://h/p?a[]=1''", THEN conjunct1, THEN iffD1, OF e1]
  have e2: "netloc_accepted ?E (authority ''http://h/p?a[]=1'')" .
  from is_valid_total_on_accepted_authority
      [of ?E "{|''h''|}" "''http://[''", THEN conjunct2, THEN conjunct2, THEN conjunct2,
       THEN spec, THEN mp, OF h3]
  have e3: "ValueError = ValueError \<and> urlparse ?E ''http://['' = Inl ValueError
         \<and> \<not> netloc_accepted ?E (authority ''http://['')" .
  from e3 have e4: "urlparse ?E ''http://['' = Inl ValueError" by (rule conjunct2 [THEN conjunct1])
  from e3 have e5: "\<not> netloc_accepted ?E (authority ''http://['')"
    by (rule conjunct2 [THEN conjunct2])
  show ?thesis
    by (intro conjI) (rule h0 h1 h2 h3 h4 h5 e2 e4 e5)+
qed

subsection \<open>Consequences of the invariant\<close>

lemma crawl_inv_origin:
  assumes "crawl_inv C E s0 s" and "u |\<in>| visited s \<or> u \<in> set (queue s)"
  shows "u \<in> set (queue s0) \<or> u |\<in>| found s"
proof -
  from assms(1) obtain new where n: "visit_log s @ queue s = queue s0 @ new"
    "set new \<subseteq> fset (found s)" and v: "fset (visited s) = set (visit_log s)"
    by (auto simp: crawl_inv_def)
  from assms(2) v have "u \<in> set (visit_log s @ queue s)" by auto
  with n show ?thesis by auto
qed

lemma crawl_inv_found_inj:
  assumes "crawl_inv C E s0 s" and "DEDUP_PARAM_SIG C" and "u |\<in>| found s" and "v |\<in>| found s"
    and "normalize_param_signature E u = normalize_param_signature E v"
  shows "u = v"
  using assms by (simp add: crawl_inv_def)

lemma extract_links_seen:
  assumes "DEDUP_PARAM_SIG C" and "normalize_param_signature E u = Inr sg"
    and "sg |\<in>| seen_param_signatures s" and "is_valid E (allowed_domains s) u = Inr b"
  shows "extract_links C E (Inr u # hs) links s = extract_links C E hs links s"
  using assms by simp

section \<open>Parameters with an empty value\<close>

text \<open>
  Claim C10, as stated, fails in its last clause: a URL whose parameters all have an
  empty value is not always deduplicated against its counterpart without a query string.
  In dedup mode the signature of a seed is not recorded, so that the seed \<^verbatim>\<open>/p\<close> and the
  link \<^verbatim>\<open>/p?id=\<close> found on it are both visited; and without dedup mode two links \<^verbatim>\<open>/p\<close>
  and \<^verbatim>\<open>/p?id=\<close> are both kept and visited.
\<close>

theorem blank_valued_not_deduplicated_counterexample:
  "normalize_param_signature
       (example_env (example_web [(''http://h/p'', [''http://h/p?id='']), (''http://h/p?id='', [])]))
       ''http://h/p?id='' = Inr ''/p''
   \<and> normalize_param_signature
       (example_env (example_web [(''http://h/p'', [''http://h/p?id='']), (''http://h/p?id='', [])]))
       ''http://h/p'' = Inr ''/p''
   \<and> main (example_config ''http://h/p'' 50 0 True)
        (example_env (example_web [(''http://h/p'', [''http://h/p?id='']), (''http://h/p?id='', [])]))
      = Inr \<lparr>visited = {|''http://h/p'', ''http://h/p?id=''|}, queue = [],
             found = {|''http://h/p?id=''|}, allowed_domains = {|''h''|},
             seen_param_signatures = {|''/p''|},
             visit_log = [''http://h/p'', ''http://h/p?id='']\<rparr>
   \<and> main (example_config ''http://h/'' 50 0 False)
        (example_env (example_web [(''http://h/'', [''http://h/p'', ''http://h/p?id='']),
            (''http://h/p'', []), (''http://h/p?id='', [])]))
      = Inr \<lparr>visited = {|''http://h/'', ''http://h/p'', ''http://h/p?id=''|}, queue = [],
             found = {|''http://h/p'', ''http://h/p?id=''|}, allowed_domains = {|''h''|},
             seen_param_signatures = {||},
             visit_log = [''http://h/'', ''http://h/p'', ''http://h/p?id='']\<rparr>"
  by code_simp

text \<open>
  Claim C10, amended. A query parameter whose value is empty does not enter the
  signature: the signature of a URL is its path with the sorted names of the fields of
  the query string that have a non-empty value. So when every field of the query string
  has an empty value, the signature is the bare path, and it equals the signature of any
  URL with the same path and no query string. In dedup mode the extractor therefore
  admits at most one of the two: at no point of a crawl are both among the links found,
  they are both visited only when one of them is a seed, and once the bare path is among
  the signatures seen the extractor passes over either of them.
\<close>

theorem blank_valued_parameters_excluded:
  assumes "urlparse E url = Inr p"
  shows "normalize_param_signature E url
           = Inr (let names = sort (remdups (map (unquote_plus E) (nonblank_names (query p))))
                  in if names = [] then path p else path p @ ''?params='' @ str_join ''&'' names)
     \<and> (list_all (\<lambda>f. after CHR ''='' f = []) (str_split CHR ''&'' (query p))
          \<longrightarrow> normalize_param_signature E url = Inr (path p))
     \<and> (list_all (\<lambda>f. after CHR ''='' f = []) (str_split CHR ''&'' (query p))
          \<and> urlparse E url' = Inr p' \<and> path p' = path p \<and> query p' = []
          \<longrightarrow> normalize_param_signature E url' = normalize_param_signature E url
            \<and> (DEDUP_PARAM_SIG C \<and> load_urls C E = Inr s0 \<and> run C E n s0 = Inr s \<and> url' \<noteq> url
                 \<longrightarrow> \<not> (url |\<in>| found s \<and> url' |\<in>| found s)
                   \<and> (url |\<in>| visited s \<and> url' |\<in>| visited s
                        \<longrightarrow> url \<in> set (queue s0) \<or> url' \<in> set (queue s0)))
            \<and> (DEDUP_PARAM_SIG C \<and> path p |\<in>| seen_param_signatures t
                 \<longrightarrow> (is_valid E (allowed_domains t) url = Inr b
                        \<longrightarrow> extract_links C E (Inr url # hs) links t = extract_links C E hs links t)
                   \<and> (is_valid E (allowed_domains t) url' = Inr b'
                        \<longrightarrow> extract_links C E (Inr url' # hs) links t
                            = extract_links C E hs links t)))"
proof (intro conjI impI)
  show f: "normalize_param_signature E url
           = Inr (let names = sort (remdups (map (unquote_plus E) (nonblank_names (query p))))
                  in if names = [] then path p else path p @ ''?params='' @ str_join ''&'' names)"
    using assms by (rule normalize_param_signature_eq)
  {
    assume "list_all (\<lambda>f. after CHR ''='' f = []) (str_split CHR ''&'' (query p))"
    then show "normalize_param_signature E url = Inr (path p)"
      using assms by (simp add: normalize_param_signature_eq nonblank_names_all_blank)
  }
next
  assume a: "list_all (\<lambda>f. after CHR ''='' f = []) (str_split CHR ''&'' (query p))
          \<and> urlparse E url' = Inr p' \<and> path p' = path p \<and> query p' = []"
  then have s1: "normalize_param_signature E url = Inr (path p)"
    using assms by (simp add: normalize_param_signature_eq nonblank_names_all_blank)
  from a have s2: "normalize_param_signature E url' = Inr (path p)"
    by (simp add: normalize_param_signature_eq)
  from s1 s2 show "normalize_param_signature E url' = normalize_param_signature E url"
    by simp
  {
    assume d: "DEDUP_PARAM_SIG C \<and> load_urls C E = Inr s0 \<and> run C E n s0 = Inr s \<and> url' \<noteq> url"
    then have inv: "crawl_inv C E s0 s" by (auto intro: crawl_inv_run)
    from crawl_inv_found_inj [OF inv, of url url'] d s1 s2
    show nf: "\<not> (url |\<in>| found s \<and> url' |\<in>| found s)" by auto
    {
      assume v: "url |\<in>| visited s \<and> url' |\<in>| visited s"
      from crawl_inv_origin [OF inv, of url] crawl_inv_origin [OF inv, of url'] v nf
      show "url \<in> set (queue s0) \<or> url' \<in> set (queue s0)" by blast
    }
  }
  {
    assume d: "DEDUP_PARAM_SIG C \<and> path p |\<in>| seen_param_signatures t"
    {
      assume "is_valid E (allowed_domains t) url = Inr b"
      with d s1 show "extract_links C E (Inr url # hs) links t = extract_links C E hs links t"
        by (simp add: extract_links_seen del: extract_links.simps)
    }
    {
      assume "is_valid E (allowed_domains t) url' = Inr b'"
      with d s2 show "extract_links C E (Inr url' # hs) links t = extract_links C E hs links t"
        by (simp add: extract_links_seen del: extract_links.simps)
    }
  }
qed

theorem blank_valued_parameters_excluded_witness:
  "urlparse (example_env (example_web [(''http://h/'', [''http://h/p'', ''http://h/p?id='']),
        (''http://h/p'', [])])) ''http://h/p?id=''
     = Inr \<lparr>scheme = ''http'', netloc = ''h'', path = ''/p'', params = [], query = ''id='',
            fragment = []\<rparr>
   \<and> normalize_param_signature (example_env (example_web [(''http://h/'', [''http://h/p'', ''http://h/p?id='']),
        (''http://h/p'', [])])) ''http://h/p?id='' = Inr ''/p''
   \<and> normalize_param_signature (example_env (example_web [(''http://h/'', [''http://h/p'', ''http://h/p?id='']),
        (''http://h/p'', [])])) ''http://h/p''
     = normalize_param_signature (example_env (example_web [(''http://h/'', [''http://h/p'', ''http://h/p?id='']),
        (''http://h/p'', [])])) ''http://h/p?id=''
   \<and> main (example_config ''http://h/'' 50 0 True)
        (example_env (example_web [(''http://h/'', [''http://h/p'', ''http://h/p?id='']),
        (''http://h/p'', [])]))
     = Inr \<lparr>visited = {|''http://h/'', ''http://h/p''|}, queue = [],
            found = {|''http://h/p''|}, allowed_domains = {|''h''|},
            seen_param_signatures = {|''/p''|}, visit_log = [''http://h/'', ''http://h/p'']\<rparr>
   \<and> \<not> (''http://h/p?id='' |\<in>| found \<lparr>visited = {|''http://h/'', ''http://h/p''|}, queue = [],
            found = {|''http://h/p''|}, allowed_domains = {|''h''|},
            seen_param_signatures = {|''/p''|}, visit_log = [''http://h/'', ''http://h/p'']\<rparr>
        \<and> ''http://h/p'' |\<in>| found \<lparr>visited = {|''http://h/'', ''http://h/p''|}, queue = [],
            found = {|''http://h/p''|}, allowed_domains = {|''h''|},
            seen_param_signatures = {|''/p''|}, visit_log = [''http://h/'', ''http://h/p'']\<rparr>)
   \<and> extract_links (example_config ''http://h/'' 50 0 True)
        (example_env (example_web [(''http://h/'', [''http://h/p'', ''http://h/p?id='']),
        (''http://h/p'', [])])) [Inr ''http://h/p?id=''] []
        \<lparr>visited = {|''http://h/'', ''http://h/p''|}, queue = [],
            found = {|''http://h/p''|}, allowed_domains = {|''h''|},
            seen_param_signatures = {|''/p''|}, visit_log = [''http://h/'', ''http://h/p'']\<rparr>
     = Inr ([], \<lparr>visited = {|''http://h/'', ''http://h/p''|}, queue = [],
            found = {|''http://h/p''|}, allowed_domains = {|''h''|},
            seen_param_signatures = {|''/p''|}, visit_log = [''http://h/'', ''http://h/p'']\<rparr>)"
proof -
  let ?E = "example_env (example_web [(''http://h/'', [''http://h/p'', ''http://h/p?id='']),
        (''http://h/p'', [])])"
  let ?C = "example_config ''http://h/'' 50 0 True"
  let ?p = "\<lparr>scheme = ''http'', netloc = ''h'', path = ''/p'', params = [], query = ''id='',
            fragment = []\<rparr>"
  let ?p' = "\<lparr>scheme = ''http'', netloc = ''h'', path = ''/p'', params = [], query = [],
            fragment = []\<rparr>"
  let ?init = "\<lparr>visited = {||}, queue = [''http://h/''], found = {||},
            allowed_domains = {|''h''|}, seen_param_signatures = {||}, visit_log = []\<rparr>"
  let ?final = "\<lparr>visited = {|''http://h/'', ''http://h/p''|}, queue = [],
            found = {|''http://h/p''|}, allowed_domains = {|''h''|},
            seen_param_signatures = {|''/p''|}, visit_log = [''http://h/'', ''http://h/p'']\<rparr>"
  have h1: "urlparse ?E ''http://h/p?id='' = Inr ?p" by code_simp
  have h2: "list_all (\<lambda>f. after CHR ''='' f = []) (str_split CHR ''&'' (query ?p))" by code_simp
  have h3: "urlparse ?E ''http://h/p'' = Inr ?p'" by code_simp
  have h4: "path ?p' = path ?p" by simp
  have h5: "query ?p' = []" by simp
  have h6: "DEDUP_PARAM_SIG ?C" by code_simp
  have h7: "load_urls ?C ?E = Inr ?init" by code_simp
  have h8: "run ?C ?E 3 ?init = Inr ?final" by code_simp
  have h9: "''http://h/p'' \<noteq> ''http://h/p?id=''" by simp
  have h10: "path ?p |\<in>| seen_param_signatures ?final" by simp
  have h11: "is_valid ?E (allowed_domains ?final) ''http://h/p?id='' = Inr True" by code_simp
  have h12: "main ?C ?E = Inr ?final" by code_simp
  have h13: "extract_links ?C ?E [] [] ?final = Inr ([], ?final)" by simp
  note T = blank_valued_parameters_excluded [OF h1, where url' = "''http://h/p''" and p' = ?p'
      and C = ?C and ?s0.0 = ?init and n = 3 and s = ?final and t = ?final and b = True and hs = "[]"
      and links = "[]"]
  from T [THEN conjunct2, THEN conjunct1, THEN mp, OF h2]
  have r1: "normalize_param_signature ?E ''http://h/p?id='' = Inr (path ?p)" .
  have a: "list_all (\<lambda>f. after CHR ''='' f = []) (str_split CHR ''&'' (query ?p))
          \<and> urlparse ?E ''http://h/p'' = Inr ?p' \<and> path ?p' = path ?p \<and> query ?p' = []"
    by (intro conjI) (rule h2 h3 h4 h5)+
  note T3 = T [THEN conjunct2, THEN conjunct2, THEN mp, OF a]
  from T3 [THEN conjunct1]
  have r2: "normalize_param_signature ?E ''http://h/p''
      = normalize_param_signature ?E ''http://h/p?id=''" .
  have d: "DEDUP_PARAM_SIG ?C \<and> load_urls ?C ?E = Inr ?init \<and> run ?C ?E 3 ?init = Inr ?final
      \<and> ''http://h/p'' \<noteq> ''http://h/p?id=''"
    by (intro conjI) (rule h6 h7 h8 h9)+
  from T3 [THEN conjunct2, THEN conjunct1, THEN mp, OF d, THEN conjunct1]
  have r3: "\<not> (''http://h/p?id='' |\<in>| found ?final \<and> ''http://h/p'' |\<in>| found ?final)" .
  have e: "DEDUP_PARAM_SIG ?C \<and> path ?p |\<in>| seen_param_signatures ?final"
    by (intro conjI) (rule h6 h10)+
  from T3 [THEN conjunct2, THEN conjunct2, THEN mp, OF e, THEN conjunct1, THEN mp, OF h11]
  have r4: "extract_links ?C ?E [Inr ''http://h/p?id=''] [] ?final = extract_links ?C ?E [] [] ?final" .
  from r1 have r1': "normalize_param_signature ?E ''http://h/p?id='' = Inr ''/p''" by simp
  from r4 h13 have r4': "extract_links ?C ?E [Inr ''http://h/p?id=''] [] ?final = Inr ([], ?final)"
    by (rule trans)
  show ?thesis
    by (intro conjI) (rule h1 r1' r2 h12 r3 r4')+
qed

subsection \<open>Runs\<close>

lemma step_log:
  assumes "step C E s = Inr s'" and "queue s = url # rest"
  shows "(url |\<in>| visited s \<and> s' = s\<lparr>queue := rest\<rparr>)
       \<or> (url |\<notin>| visited s \<and> visited s' = finsert url (visited s)
            \<and> visit_log s' = visit_log s @ [url])"
proof (cases "url |\<in>| visited s")
  case True
  with step_visited [OF assms] show ?thesis by simp
next
  case False
  from step_fresh [OF assms False] False show ?thesis by blast
qed

lemma step_grows:
  assumes "step C E s = Inr s'" and "loop_cond C s"
  shows "(\<exists>later. visit_log s' = visit_log s @ later) \<and> visited s |\<subseteq>| visited s'"
proof -
  from assms(2) obtain url rest where q: "queue s = url # rest"
    by (cases "queue s") (auto simp: loop_cond_def)
  from step_log [OF assms(1) q] show ?thesis by auto
qed

lemma run_grows:
  assumes "run C E n s = Inr s'"
  shows "(\<exists>later. visit_log s' = visit_log s @ later) \<and> visited s |\<subseteq>| visited s'"
proof (rule run_invariant [where P = "\<lambda>t. (\<exists>later. visit_log t = visit_log s @ later)
      \<and> visited s |\<subseteq>| visited t" and C = C and E = E])
  show "(\<exists>later. visit_log s = visit_log s @ later) \<and> visited s |\<subseteq>| visited s" by simp
  show "run C E n s = Inr s'" by (rule assms)
next
  fix t t' assume p: "(\<exists>later. visit_log t = visit_log s @ later) \<and> visited s |\<subseteq>| visited t"
    and "loop_cond C t" "step C E t = Inr t'"
  from step_grows [OF this(3,2)] p
  show "(\<exists>later. visit_log t' = visit_log s @ later) \<and> visited s |\<subseteq>| visited t'"
    by auto
qed

lemma crawl_halts_at:
  "run C E n s0 = Inr t \<Longrightarrow> \<not> loop_cond C t \<Longrightarrow> crawl C E s0 = Inr t"
proof (induction n arbitrary: s0)
  case 0
  then have "s0 = t" by simp
  with 0 show ?case by (simp add: crawl.simps [of C E t])
next
  case (Suc n)
  show ?case
  proof (cases "loop_cond C s0")
    case False
    with Suc.prems have "s0 = t" by simp
    with False show ?thesis by (simp add: crawl.simps [of C E t])
  next
    case True
    with Suc.prems obtain s' where s': "step C E s0 = Inr s'" "run C E n s' = Inr t"
      by (auto split: sum.splits)
    from Suc.IH [OF s'(2) Suc.prems(2)] True s'(1) show ?thesis
      by (simp add: crawl.simps [of C E s0])
  qed
qed

lemma crawl_run_least:
  "\<exists>n. crawl C E s0 = run C E n s0
       \<and> (\<forall>m<n. \<forall>t. run C E m s0 = Inr t \<longrightarrow> loop_cond C t)
       \<and> (\<forall>t. run C E n s0 = Inr t \<longrightarrow> \<not> loop_cond C t)"
proof (induction C E s0 rule: crawl.induct)
  case (1 C E s)
  show ?case
  proof (cases "loop_cond C s")
    case False
    then have "crawl C E s = run C E 0 s
        \<and> (\<forall>m<0. \<forall>t. run C E m s = Inr t \<longrightarrow> loop_cond C t)
        \<and> (\<forall>t. run C E 0 s = Inr t \<longrightarrow> \<not> loop_cond C t)"
      by (simp add: crawl.simps [of C E s])
    then show ?thesis by blast
  next
    case True
    show ?thesis
    proof (cases "step C E s")
      case (Inl e)
      with True have "crawl C E s = run C E (Suc 0) s
          \<and> (\<forall>m<Suc 0. \<forall>t. run C E m s = Inr t \<longrightarrow> loop_cond C t)
          \<and> (\<forall>t. run C E (Suc 0) s = Inr t \<longrightarrow> \<not> loop_cond C t)"
        by (simp add: crawl.simps [of C E s])
      then show ?thesis by blast
    next
      case (Inr s')
      from 1 [OF True Inr] obtain n where
        n: "crawl C E s' = run C E n s'"
           "\<forall>m<n. \<forall>t. run C E m s' = Inr t \<longrightarrow> loop_cond C t"
           "\<forall>t. run C E n s' = Inr t \<longrightarrow> \<not> loop_cond C t"
        by blast
      from True Inr n(1) have a: "crawl C E s = run C E (Suc n) s"
        by (simp add: crawl.simps [of C E s])
      from True Inr n(3) have c: "\<forall>t. run C E (Suc n) s = Inr t \<longrightarrow> \<not> loop_cond C t"
        by simp
      have b: "\<forall>m<Suc n. \<forall>t. run C E m s = Inr t \<longrightarrow> loop_cond C t"
      proof (intro allI impI)
        fix m t assume m: "m < Suc n" and r: "run C E m s = Inr t"
        show "loop_cond C t"
        proof (cases m)
          case 0
          with r True show ?thesis by simp
        next
          case (Suc k)
          with r True Inr have "run C E k s' = Inr t" by simp
          moreover from m Suc have "k < n" by simp
          ultimately show ?thesis using n(2) by blast
        qed
      qed
      from a b c show ?thesis by blast
    qed
  qed
qed

lemma main_crawl: "load_urls C E = Inr s0 \<Longrightarrow> main C E = crawl C E s0"
  by (simp add: main_def)

lemma fresh_step_card:
  assumes "crawl_inv C E s0 s" and "loop_cond C s" and "step C E s = Inr s'"
  shows "visit_log s' = visit_log s @ [hd (queue s)] \<and> hd (queue s) |\<notin>| visited s
       \<and> visited s' = finsert (hd (queue s)) (visited s)
       \<and> fcard (visited s') = fcard (visited s) + 1"
proof -
  from assms(2) obtain url rest where q: "queue s = url # rest"
    by (cases "queue s") (auto simp: loop_cond_def)
  from crawl_inv_head [OF assms(1) q] have nv: "url |\<notin>| visited s" .
  from step_log [OF assms(3) q] nv q show ?thesis
    by (auto simp: fcard_finsert_disjoint)
qed

section \<open>The page budget\<close>

text \<open>
  Claim C1, as stated, fails: the budget is any integer, and with a negative budget the
  empty visited set is already larger than the budget.
\<close>

theorem negative_budget_counterexample:
  "main (example_config ''http://h/'' (- 1) 0 False) (example_env (example_web []))
     = Inr \<lparr>visited = {||}, queue = [''http://h/''], found = {||}, allowed_domains = {|''h''|},
            seen_param_signatures = {||}, visit_log = []\<rparr>
   \<and> MAX_PAGES (example_config ''http://h/'' (- 1) 0 False) = - 1
   \<and> \<not> int (fcard (visited \<lparr>visited = {||}, queue = [''http://h/''], found = {||},
            allowed_domains = {|''h''|}, seen_param_signatures = {||}, visit_log = []\<rparr>))
        \<le> MAX_PAGES (example_config ''http://h/'' (- 1) 0 False)"
  by code_simp

text \<open>
  Claim C1, amended. At every point of every crawl the visited set holds at most
  \<open>max 0 MAX_PAGES\<close> URLs: a pass of the loop starts only when fewer than \<open>MAX_PAGES\<close> pages
  are visited, and it visits exactly one new page. The loop ends after finitely many
  passes, at the first point where the queue is empty or the number of visited pages has
  reached the budget, and the crawl returns the state of that point.
\<close>

theorem visited_within_budget:
  assumes "load_urls C E = Inr s0"
  shows "(\<forall>n s. run C E n s0 = Inr s \<longrightarrow> int (fcard (visited s)) \<le> max 0 (MAX_PAGES C))
     \<and> (\<forall>n s s'. run C E n s0 = Inr s \<and> loop_cond C s \<and> step C E s = Inr s' \<longrightarrow>
           int (fcard (visited s)) < MAX_PAGES C
           \<and> fcard (visited s') = fcard (visited s) + 1)
     \<and> (\<exists>n. main C E = run C E n s0
           \<and> (\<forall>m<n. \<forall>t. run C E m s0 = Inr t \<longrightarrow> loop_cond C t)
           \<and> (\<forall>t. run C E n s0 = Inr t \<longrightarrow> \<not> loop_cond C t))
     \<and> (\<forall>n t. run C E n s0 = Inr t \<and> (queue t = [] \<or> MAX_PAGES C \<le> int (fcard (visited t)))
           \<longrightarrow> main C E = Inr t)
     \<and> (\<forall>t. main C E = Inr t \<longrightarrow> queue t = [] \<or> MAX_PAGES C \<le> int (fcard (visited t)))"
proof (intro conjI allI impI)
  fix n s assume "run C E n s0 = Inr s"
  with load_urls_state [OF assms] show "int (fcard (visited s)) \<le> max 0 (MAX_PAGES C)"
    by (auto intro: budget_run)
next
  fix n s s' assume a: "run C E n s0 = Inr s \<and> loop_cond C s \<and> step C E s = Inr s'"
  then show "int (fcard (visited s)) < MAX_PAGES C" by (simp add: loop_cond_def)
  from a have i: "crawl_inv C E s0 s" and l: "loop_cond C s" and st: "step C E s = Inr s'"
    by (auto intro: crawl_inv_run [OF assms])
  from fresh_step_card [OF i l st, THEN conjunct2, THEN conjunct2, THEN conjunct2]
  show "fcard (visited s') = fcard (visited s) + 1" .
next
  from crawl_run_least [of C E s0] main_crawl [OF assms]
  show "\<exists>n. main C E = run C E n s0
           \<and> (\<forall>m<n. \<forall>t. run C E m s0 = Inr t \<longrightarrow> loop_cond C t)
           \<and> (\<forall>t. run C E n s0 = Inr t \<longrightarrow> \<not> loop_cond C t)"
    by simp
next
  fix n t assume a: "run C E n s0 = Inr t \<and> (queue t = [] \<or> MAX_PAGES C \<le> int (fcard (visited t)))"
  then have "\<not> loop_cond C t" by (auto simp: loop_cond_def)
  with a crawl_halts_at [of C E n s0 t] main_crawl [OF assms] show "main C E = Inr t"
    by simp
next
  fix t assume "main C E = Inr t"
  with crawl_run [of C E s0] main_crawl [OF assms] have "\<not> loop_cond C t" by auto
  then show "queue t = [] \<or> MAX_PAGES C \<le> int (fcard (visited t))"
    by (auto simp: loop_cond_def)
qed

theorem visited_within_budget_witness:
  "load_urls (example_config ''http://h/'' 2 0 False)
       (example_env (example_web [(''http://h/'', [''http://h/a'', ''http://h/b'']),
          (''http://h/a'', []), (''http://h/b'', [])]))
     = Inr \<lparr>visited = {||}, queue = [''http://h/''], found = {||}, allowed_domains = {|''h''|},
            seen_param_signatures = {||}, visit_log = []\<rparr>
   \<and> run (example_config ''http://h/'' 2 0 False)
       (example_env (example_web [(''http://h/'', [''http://h/a'', ''http://h/b'']),
          (''http://h/a'', []), (''http://h/b'', [])])) 1
       \<lparr>visited = {||}, queue = [''http://h/''], found = {||}, allowed_domains = {|''h''|},
            seen_param_signatures = {||}, visit_log = []\<rparr>
     = Inr \<lparr>visited = {|''http://h/''|}, queue = [''http://h/a'', ''http://h/b''],
            found = {|''http://h/a'', ''http://h/b''|}, allowed_domains = {|''h''|},
            seen_param_signatures = {||}, visit_log = [''http://h/'']\<rparr>
   \<and> int (fcard (visited \<lparr>visited = {|''http://h/''|}, queue = [''http://h/a'', ''http://h/b''],
            found = {|''http://h/a'', ''http://h/b''|}, allowed_domains = {|''h''|},
            seen_param_signatures = {||}, visit_log = [''http://h/'']\<rparr>))
       \<le> max 0 (MAX_PAGES (example_config ''http://h/'' 2 0 False))
   \<and> fcard (visited \<lparr>visited = {|''http://h/'', ''http://h/a''|}, queue = [''http://h/b''],
            found = {|''http://h/a'', ''http://h/b''|}, allowed_domains = {|''h''|},
            seen_param_signatures = {||}, visit_log = [''http://h/'', ''http://h/a'']\<rparr>)
       = fcard (visited \<lparr>visited = {|''http://h/''|}, queue = [''http://h/a'', ''http://h/b''],
            found = {|''http://h/a'', ''http://h/b''|}, allowed_domains = {|''h''|},
            seen_param_signatures = {||}, visit_log = [''http://h/'']\<rparr>) + 1
   \<and> main (example_config ''http://h/'' 2 0 False)
       (example_env (example_web [(''http://h/'', [''http://h/a'', ''http://h/b'']),
          (''http://h/a'', []), (''http://h/b'', [])]))
     = Inr \<lparr>visited = {|''http://h/'', ''http://h/a''|}, queue = [''http://h/b''],
            found = {|''http://h/a'', ''http://h/b''|}, allowed_domains = {|''h''|},
            seen_param_signatures = {||}, visit_log = [''http://h/'', ''http://h/a'']\<rparr>"
proof -
  let ?C = "example_config ''http://h/'' 2 0 False"
  let ?E = "example_env (example_web [(''http://h/'', [''http://h/a'', ''http://h/b'']),
          (''http://h/a'', []), (''http://h/b'', [])])"
  let ?init = "\<lparr>visited = {||}, queue = [''http://h/''], found = {||},
            allowed_domains = {|''h''|}, seen_param_signatures = {||}, visit_log = []\<rparr>"
  let ?mid = "\<lparr>visited = {|''http://h/''|}, queue = [''http://h/a'', ''http://h/b''],
            found = {|''http://h/a'', ''http://h/b''|}, allowed_domains = {|''h''|},
            seen_param_signatures = {||}, visit_log = [''http://h/'']\<rparr>"
  let ?final = "\<lparr>visited = {|''http://h/'', ''http://h/a''|}, queue = [''http://h/b''],
            found = {|''http://h/a'', ''http://h/b''|}, allowed_domains = {|''h''|},
            seen_param_signatures = {||}, visit_log = [''http://h/'', ''http://h/a'']\<rparr>"
  have h1: "load_urls ?C ?E = Inr ?init" by code_simp
  have h2: "run ?C ?E 1 ?init = Inr ?mid" by code_simp
  have h3: "run ?C ?E 1 ?init = Inr ?mid \<and> loop_cond ?C ?mid \<and> step ?C ?E ?mid = Inr ?final"
    by code_simp
  have h4: "run ?C ?E 2 ?init = Inr ?final
      \<and> (queue ?final = [] \<or> MAX_PAGES ?C \<le> int (fcard (visited ?final)))"
    by code_simp
  note T = visited_within_budget [OF h1]
  from T [THEN conjunct1, THEN spec, THEN spec, THEN mp, OF h2]
  have r1: "int (fcard (visited ?mid)) \<le> max 0 (MAX_PAGES ?C)" .
  from T [THEN conjunct2, THEN conjunct1, THEN spec, THEN spec, THEN spec, THEN mp, OF h3,
      THEN conjunct2]
  have r2: "fcard (visited ?final) = fcard (visited ?mid) + 1" .
  from T [THEN conjunct2, THEN conjunct2, THEN conjunct2, THEN conjunct1, THEN spec, THEN spec,
      THEN mp, OF h4]
  have r3: "main ?C ?E = Inr ?final" .
  show ?thesis
    by (intro conjI) (rule h1 h2 r1 r2 r3)+
qed

section \<open>No duplicate visits\<close>

text \<open>
  Claim C2. At every point of every crawl no URL has been visited twice (the URLs handed to
  \<^verbatim>\<open>extract\<close> so far are pairwise different, and they are the members of \<open>visited\<close>),
  the queue holds no URL twice, and no visited URL is in the queue, now or at any later
  point: a pass of the loop visits the head of the queue, which was not visited before,
  and a visited URL stays visited.
\<close>

theorem no_duplicate_visits:
  assumes "load_urls C E = Inr s0" and "run C E n s0 = Inr s"
  shows "distinct (visit_log s) \<and> fset (visited s) = set (visit_log s)
     \<and> distinct (queue s)
     \<and> (\<forall>u. u |\<in>| visited s \<longrightarrow> u \<notin> set (queue s))
     \<and> (\<forall>s'. loop_cond C s \<and> step C E s = Inr s' \<longrightarrow>
           hd (queue s) |\<notin>| visited s \<and> visit_log s' = visit_log s @ [hd (queue s)]
           \<and> visited s' = finsert (hd (queue s)) (visited s))
     \<and> (\<forall>m s'. run C E m s = Inr s' \<longrightarrow>
           (\<exists>later. visit_log s' = visit_log s @ later)
           \<and> (\<forall>u. u |\<in>| visited s \<longrightarrow> u |\<in>| visited s' \<and> u \<notin> set (queue s')))"
proof -
  from crawl_inv_run [OF assms] have inv: "crawl_inv C E s0 s" .
  then have d: "distinct (visit_log s @ queue s)" and v: "fset (visited s) = set (visit_log s)"
    by (simp_all add: crawl_inv_def)
  have vm: "\<And>x. x |\<in>| visited s \<longleftrightarrow> x \<in> set (visit_log s)"
    using v by auto
  have c1: "distinct (visit_log s)" using d by simp
  have c3: "distinct (queue s)" using d by simp
  have c4: "\<forall>u. u |\<in>| visited s \<longrightarrow> u \<notin> set (queue s)"
    using d by (auto simp: vm)
  have c5: "\<forall>s'. loop_cond C s \<and> step C E s = Inr s' \<longrightarrow>
           hd (queue s) |\<notin>| visited s \<and> visit_log s' = visit_log s @ [hd (queue s)]
           \<and> visited s' = finsert (hd (queue s)) (visited s)"
    using fresh_step_card [OF inv] by blast
  have c6: "\<forall>m s'. run C E m s = Inr s' \<longrightarrow>
           (\<exists>later. visit_log s' = visit_log s @ later)
           \<and> (\<forall>u. u |\<in>| visited s \<longrightarrow> u |\<in>| visited s' \<and> u \<notin> set (queue s'))"
  proof (intro allI impI)
    fix m s' assume r: "run C E m s = Inr s'"
    from run_add [OF assms(2) r] have "run C E (n + m) s0 = Inr s'" .
    from crawl_inv_run [OF assms(1) this] have d': "distinct (visit_log s' @ queue s')"
      and v': "fset (visited s') = set (visit_log s')"
      by (simp_all add: crawl_inv_def)
    have vm': "\<And>x. x |\<in>| visited s' \<longleftrightarrow> x \<in> set (visit_log s')"
      using v' by auto
    from run_grows [OF r] have g: "\<exists>later. visit_log s' = visit_log s @ later"
      and sub: "visited s |\<subseteq>| visited s'" by simp_all
    have "\<forall>u. u |\<in>| visited s \<longrightarrow> u |\<in>| visited s' \<and> u \<notin> set (queue s')"
    proof (intro allI impI)
      fix u assume "u |\<in>| visited s"
      with sub have u: "u |\<in>| visited s'" by auto
      with d' have "u \<notin> set (queue s')" by (auto simp: vm')
      with u show "u |\<in>| visited s' \<and> u \<notin> set (queue s')" by simp
    qed
    with g show "(\<exists>later. visit_log s' = visit_log s @ later)
           \<and> (\<forall>u. u |\<in>| visited s \<longrightarrow> u |\<in>| visited s' \<and> u \<notin> set (queue s'))"
      by simp
  qed
  show ?thesis
    by (intro conjI) (rule c1 v c3 c4 c5 c6)+
qed

theorem no_duplicate_visits_witness:
  "load_urls (example_config ''http://h/'' 50 0 False)
       (example_env (example_web [(''http://h/'', [''http://h/a'', ''http://h/'', ''http://h/a'', ''http://h/b'']),
          (''http://h/a'', [''http://h/'', ''http://h/b'', ''http://h/c'']),
          (''http://h/b'', [''http://h/a'']), (''http://h/c'', [])]))
     = Inr \<lparr>visited = {||}, queue = [''http://h/''], found = {||}, allowed_domains = {|''h''|},
            seen_param_signatures = {||}, visit_log = []\<rparr>
   \<and> run (example_config ''http://h/'' 50 0 False)
       (example_env (example_web [(''http://h/'', [''http://h/a'', ''http://h/'', ''http://h/a'', ''http://h/b'']),
          (''http://h/a'', [''http://h/'', ''http://h/b'', ''http://h/c'']),
          (''http://h/b'', [''http://h/a'']), (''http://h/c'', [])])) 2
       \<lparr>visited = {||}, queue = [''http://h/''], found = {||}, allowed_domains = {|''h''|},
            seen_param_signatures = {||}, visit_log = []\<rparr>
     = Inr \<lparr>visited = {|''http://h/'', ''http://h/a''|}, queue = [''http://h/b'', ''http://h/c''],
            found = {|''http://h/a'', ''http://h/'', ''http://h/b'', ''http://h/c''|},
            allowed_domains = {|''h''|}, seen_param_signatures = {||},
            visit_log = [''http://h/'', ''http://h/a'']\<rparr>
   \<and> distinct [''http://h/'', ''http://h/a''] \<and> distinct [''http://h/b'', ''http://h/c'']
   \<and> ''http://h/'' \<notin> set [''http://h/b'', ''http://h/c'']
   \<and> main (example_config ''http://h/'' 50 0 False)
       (example_env (example_web [(''http://h/'', [''http://h/a'', ''http://h/'', ''http://h/a'', ''http://h/b'']),
          (''http://h/a'', [''http://h/'', ''http://h/b'', ''http://h/c'']),
          (''http://h/b'', [''http://h/a'']), (''http://h/c'', [])]))
     = Inr \<lparr>visited = {|''http://h/'', ''http://h/a'', ''http://h/b'', ''http://h/c''|},
            queue = [],
            found = {|''http://h/a'', ''http://h/'', ''http://h/b'', ''http://h/c''|},
            allowed_domains = {|''h''|}, seen_param_signatures = {||},
            visit_log = [''http://h/'', ''http://h/a'', ''http://h/b'', ''http://h/c'']\<rparr>
   \<and> (\<exists>later. [''http://h/'', ''http://h/a'', ''http://h/b'', ''http://h/c'']
          = [''http://h/'', ''http://h/a''] @ later)"
proof -
  let ?C = "example_config ''http://h/'' 50 0 False"
  let ?E = "example_env (example_web [(''http://h/'', [''http://h/a'', ''http://h/'', ''http://h/a'', ''http://h/b'']),
          (''http://h/a'', [''http://h/'', ''http://h/b'', ''http://h/c'']),
          (''http://h/b'', [''http://h/a'']), (''http://h/c'', [])])"
  let ?init = "\<lparr>visited = {||}, queue = [''http://h/''], found = {||},
            allowed_domains = {|''h''|}, seen_param_signatures = {||}, visit_log = []\<rparr>"
  let ?mid = "\<lparr>visited = {|''http://h/'', ''http://h/a''|}, queue = [''http://h/b'', ''http://h/c''],
            found = {|''http://h/a'', ''http://h/'', ''http://h/b'', ''http://h/c''|},
            allowed_domains = {|''h''|}, seen_param_signatures = {||},
            visit_log = [''http://h/'', ''http://h/a'']\<rparr>"
  let ?next = "\<lparr>visited = {|''http://h/'', ''http://h/a'', ''http://h/b''|},
            queue = [''http://h/c''],
            found = {|''http://h/a'', ''http://h/'', ''http://h/b'', ''http://h/c''|},
            allowed_domains = {|''h''|}, seen_param_signatures = {||},
            visit_log = [''http://h/'', ''http://h/a'', ''http://h/b'']\<rparr>"
  let ?final = "\<lparr>visited = {|''http://h/'', ''http://h/a'', ''http://h/b'', ''http://h/c''|},
            queue = [],
            found = {|''http://h/a'', ''http://h/'', ''http://h/b'', ''http://h/c''|},
            allowed_domains = {|''h''|}, seen_param_signatures = {||},
            visit_log = [''http://h/'', ''http://h/a'', ''http://h/b'', ''http://h/c'']\<rparr>"
  have h1: "load_urls ?C ?E = Inr ?init" by code_simp
  have h2: "run ?C ?E 2 ?init = Inr ?mid" by code_simp
  have h3: "''http://h/'' |\<in>| visited ?mid" by simp
  have h4: "loop_cond ?C ?mid \<and> step ?C ?E ?mid = Inr ?next" by code_simp
  have h5: "run ?C ?E 2 ?mid = Inr ?final" by code_simp
  have h6: "main ?C ?E = Inr ?final" by code_simp
  note T = no_duplicate_visits [OF h1 h2]
  from T [THEN conjunct1] have r1: "distinct [''http://h/'', ''http://h/a'']" by simp
  from T [THEN conjunct2, THEN conjunct2, THEN conjunct1]
  have r2: "distinct [''http://h/b'', ''http://h/c'']" by simp
  from T [THEN conjunct2, THEN conjunct2, THEN conjunct2, THEN conjunct1, THEN spec, THEN mp,
      OF h3]
  have r3: "''http://h/'' \<notin> set [''http://h/b'', ''http://h/c'']" by simp
  from T [THEN conjunct2, THEN conjunct2, THEN conjunct2, THEN conjunct2, THEN conjunct1,
      THEN spec, THEN mp, OF h4, THEN conjunct2, THEN conjunct1]
  have r4: "visit_log ?next = visit_log ?mid @ [hd (queue ?mid)]" .
  from T [THEN conjunct2, THEN conjunct2, THEN conjunct2, THEN conjunct2, THEN conjunct2,
      THEN spec, THEN spec, THEN mp, OF h5, THEN conjunct1]
  have r5: "\<exists>later. [''http://h/'', ''http://h/a'', ''http://h/b'', ''http://h/c'']
          = [''http://h/'', ''http://h/a''] @ later" by simp
  show ?thesis
    by (intro conjI) (rule h1 h2 r1 r2 r3 h6 r5)+
qed

subsection \<open>The scope filter accepts\<close>

lemma is_valid_True:
  "is_valid E allowed u = Inr True \<longleftrightarrow>
     (\<exists>p. urlparse E u = Inr p \<and> (scheme p = ''http'' \<or> scheme p = ''https'')
          \<and> netloc p |\<in>| allowed)"
  by (auto simp: is_valid_def split: sum.splits)

lemma extract_links_out_of_scope:
  assumes "is_valid E (allowed_domains t) u = Inr False"
  shows "extract_links C E (Inr u # hs) links t = extract_links C E hs links t"
  using assms by simp

section \<open>The scope invariant\<close>

text \<open>
  Claim C4. The allowed domains are computed once, by \<^verbatim>\<open>load_urls\<close>: they are the netlocs
  of the seeds, and the crawl never changes them. At every point of a crawl, and so in its
  final state, every link found passed the scope filter (its scheme is \<^verbatim>\<open>http\<close> or
  \<^verbatim>\<open>https\<close> and its netloc, which is what the code takes for the host, is an allowed
  domain), and every URL that is visited, found or queued is a seed or passed the scope
  filter. The extractor drops a link that the scope filter rejects.
\<close>

theorem scope_invariant:
  assumes "load_urls C E = Inr s0" and "seed_set C = Inr seeds" and "run C E n s0 = Inr s"
  shows "allowed_domains s = allowed_domains s0
     \<and> (\<forall>d. d |\<in>| allowed_domains s0 \<longleftrightarrow>
           (\<exists>u\<in>set seeds. \<exists>p. urlparse E u = Inr p \<and> netloc p = d))
     \<and> (\<forall>u. u |\<in>| found s \<longrightarrow>
           (\<exists>p. urlparse E u = Inr p \<and> (scheme p = ''http'' \<or> scheme p = ''https'')
                \<and> netloc p |\<in>| allowed_domains s0))
     \<and> (\<forall>u. u |\<in>| visited s \<or> u |\<in>| found s \<or> u \<in> set (queue s) \<longrightarrow>
           u \<in> set seeds
           \<or> (\<exists>p. urlparse E u = Inr p \<and> (scheme p = ''http'' \<or> scheme p = ''https'')
                \<and> netloc p |\<in>| allowed_domains s0))
     \<and> (\<forall>u hs links t. is_valid E (allowed_domains t) u = Inr False \<longrightarrow>
           extract_links C E (Inr u # hs) links t = extract_links C E hs links t)
     \<and> (\<forall>sf. main C E = Inr sf \<longrightarrow> (\<exists>k. run C E k s0 = Inr sf))"
proof -
  from crawl_inv_run [OF assms(1,3)] have inv: "crawl_inv C E s0 s" .
  from load_urls_seeds [OF assms(1,2)] have qs: "set (queue s0) = set seeds" .
  have c1: "allowed_domains s = allowed_domains s0"
    using inv by (simp add: crawl_inv_def)
  have c2: "\<forall>d. d |\<in>| allowed_domains s0 \<longleftrightarrow>
           (\<exists>u\<in>set seeds. \<exists>p. urlparse E u = Inr p \<and> netloc p = d)"
    using load_urls_domains [OF assms(1)] unfolding qs by (metis sum.inject(2))
  have c3: "\<forall>u. u |\<in>| found s \<longrightarrow>
           (\<exists>p. urlparse E u = Inr p \<and> (scheme p = ''http'' \<or> scheme p = ''https'')
                \<and> netloc p |\<in>| allowed_domains s0)"
    using inv by (simp add: crawl_inv_def is_valid_True)
  have c4: "\<forall>u. u |\<in>| visited s \<or> u |\<in>| found s \<or> u \<in> set (queue s) \<longrightarrow>
           u \<in> set seeds
           \<or> (\<exists>p. urlparse E u = Inr p \<and> (scheme p = ''http'' \<or> scheme p = ''https'')
                \<and> netloc p |\<in>| allowed_domains s0)"
  proof (intro allI impI)
    fix u assume "u |\<in>| visited s \<or> u |\<in>| found s \<or> u \<in> set (queue s)"
    with crawl_inv_origin [OF inv, of u] qs have "u \<in> set seeds \<or> u |\<in>| found s" by blast
    with c3 show "u \<in> set seeds
           \<or> (\<exists>p. urlparse E u = Inr p \<and> (scheme p = ''http'' \<or> scheme p = ''https'')
                \<and> netloc p |\<in>| allowed_domains s0)"
      by blast
  qed
  have c5: "\<forall>u hs links t. is_valid E (allowed_domains t) u = Inr False \<longrightarrow>
           extract_links C E (Inr u # hs) links t = extract_links C E hs links t"
    by (intro allI impI) (rule extract_links_out_of_scope)
  have c6: "\<forall>sf. main C E = Inr sf \<longrightarrow> (\<exists>k. run C E k s0 = Inr sf)"
    using crawl_run [of C E s0] main_crawl [OF assms(1)] by metis
  show ?thesis
    by (intro conjI) (rule c1 c2 c3 c4 c5 c6)+
qed

theorem scope_invariant_witness:
  "load_urls (example_config ''http://h/'' 50 0 False)
       (example_env (example_web [(''http://h/'', [''http://h/a'', ''http://other/x'', ''ftp://h/f'', ''https://h/s'']),
          (''http://h/a'', [])]))
     = Inr \<lparr>visited = {||}, queue = [''http://h/''], found = {||}, allowed_domains = {|''h''|},
            seen_param_signatures = {||}, visit_log = []\<rparr>
   \<and> seed_set (example_config ''http://h/'' 50 0 False) = Inr [''http://h/'']
   \<and> main (example_config ''http://h/'' 50 0 False)
       (example_env (example_web [(''http://h/'', [''http://h/a'', ''http://other/x'', ''ftp://h/f'', ''https://h/s'']),
          (''http://h/a'', [])]))
     = Inr \<lparr>visited = {|''http://h/'', ''http://h/a'', ''https://h/s''|}, queue = [],
            found = {|''http://h/a'', ''https://h/s''|}, allowed_domains = {|''h''|},
            seen_param_signatures = {||},
            visit_log = [''http://h/'', ''http://h/a'', ''https://h/s'']\<rparr>
   \<and> (\<exists>p. urlparse (example_env (example_web [(''http://h/'', [''http://h/a'', ''http://other/x'', ''ftp://h/f'', ''https://h/s'']),
          (''http://h/a'', [])])) ''https://h/s'' = Inr p
        \<and> (scheme p = ''http'' \<or> scheme p = ''https'') \<and> netloc p |\<in>| {|''h''|})
   \<and> is_valid (example_env (example_web [(''http://h/'', [''http://h/a'', ''http://other/x'', ''ftp://h/f'', ''https://h/s'']),
          (''http://h/a'', [])])) {|''h''|} ''http://other/x'' = Inr False
   \<and> is_valid (example_env (example_web [(''http://h/'', [''http://h/a'', ''http://other/x'', ''ftp://h/f'', ''https://h/s'']),
          (''http://h/a'', [])])) {|''h''|} ''ftp://h/f'' = Inr False
   \<and> extract_links (example_config ''http://h/'' 50 0 False)
       (example_env (example_web [(''http://h/'', [''http://h/a'', ''http://other/x'', ''ftp://h/f'', ''https://h/s'']),
          (''http://h/a'', [])])) [Inr ''http://other/x''] []
       \<lparr>visited = {||}, queue = [''http://h/''], found = {||}, allowed_domains = {|''h''|},
            seen_param_signatures = {||}, visit_log = []\<rparr>
     = Inr ([], \<lparr>visited = {||}, queue = [''http://h/''], found = {||},
            allowed_domains = {|''h''|}, seen_param_signatures = {||}, visit_log = []\<rparr>)"
proof -
  let ?C = "example_config ''http://h/'' 50 0 False"
  let ?E = "example_env (example_web [(''http://h/'', [''http://h/a'', ''http://other/x'', ''ftp://h/f'', ''https://h/s'']),
          (''http://h/a'', [])])"
  let ?init = "\<lparr>visited = {||}, queue = [''http://h/''], found = {||},
            allowed_domains = {|''h''|}, seen_param_signatures = {||}, visit_log = []\<rparr>"
  let ?final = "\<lparr>visited = {|''http://h/'', ''http://h/a'', ''https://h/s''|}, queue = [],
            found = {|''http://h/a'', ''https://h/s''|}, allowed_domains = {|''h''|},
            seen_param_signatures = {||},
            visit_log = [''http://h/'', ''http://h/a'', ''https://h/s'']\<rparr>"
  have h1: "load_urls ?C ?E = Inr ?init" by code_simp
  have h2: "seed_set ?C = Inr [''http://h/'']" by code_simp
  have h3: "run ?C ?E 3 ?init = Inr ?final" by code_simp
  have h4: "''https://h/s'' |\<in>| found ?final" by simp
  have h5: "is_valid ?E (allowed_domains ?init) ''http://other/x'' = Inr False" by code_simp
  have h6: "is_valid ?E {|''h''|} ''ftp://h/f'' = Inr False" by code_simp
  have h7: "main ?C ?E = Inr ?final" by code_simp
  have h8: "extract_links ?C ?E [] [] ?init = Inr ([], ?init)" by simp
  note T = scope_invariant [OF h1 h2 h3]
  from T [THEN conjunct2, THEN conjunct2, THEN conjunct1, THEN spec, THEN mp, OF h4]
  have r1: "\<exists>p. urlparse ?E ''https://h/s'' = Inr p
        \<and> (scheme p = ''http'' \<or> scheme p = ''https'') \<and> netloc p |\<in>| {|''h''|}" by simp
  from T [THEN conjunct2, THEN conjunct2, THEN conjunct2, THEN conjunct2, THEN conjunct1,
      THEN spec, THEN spec, THEN spec, THEN spec, THEN mp, OF h5]
  have r2: "extract_links ?C ?E [Inr ''http://other/x''] [] ?init
      = extract_links ?C ?E [] [] ?init" .
  from r2 h8 have r3: "extract_links ?C ?E [Inr ''http://other/x''] [] ?init = Inr ([], ?init)"
    by (rule trans)
  from h5 have r4: "is_valid ?E {|''h''|} ''http://other/x'' = Inr False" by simp
  show ?thesis
    by (intro conjI) (rule h1 h2 h7 r1 r4 h6 r3)+
qed

subsection \<open>The seeds in the visit order\<close>

lemma crawl_inv_card:
  assumes "crawl_inv C E s0 s"
  shows "fcard (visited s) = length (visit_log s)"
proof -
  from assms have d: "distinct (visit_log s)" and v: "fset (visited s) = set (visit_log s)"
    by (simp_all add: crawl_inv_def)
  have "fcard (visited s) = card (fset (visited s))" by (simp add: fcard.rep_eq)
  also have "\<dots> = length (visit_log s)" using d v by (simp add: distinct_card)
  finally show ?thesis .
qed

lemma crawl_inv_early_seed:
  assumes inv: "crawl_inv C E s0 s" and stop: "\<not> loop_cond C s"
    and i: "i < length (queue s0)" "int i < MAX_PAGES C"
  shows "queue s0 ! i |\<in>| visited s"
proof -
  from inv obtain new where n: "visit_log s @ queue s = queue s0 @ new"
    and v: "fset (visited s) = set (visit_log s)"
    by (auto simp: crawl_inv_def)
  have "i < length (visit_log s)"
  proof (cases "queue s = []")
    case True
    with n i(1) show ?thesis
      by (metis append_Nil2 length_append trans_less_add1)
  next
    case False
    with stop have "MAX_PAGES C \<le> int (fcard (visited s))" by (simp add: loop_cond_def)
    with i(2) show ?thesis by (simp add: crawl_inv_card [OF inv])
  qed
  then have "visit_log s ! i = (visit_log s @ queue s) ! i" by (simp add: nth_append)
  also have "\<dots> = queue s0 ! i" using i(1) by (simp add: n nth_append)
  finally have "queue s0 ! i \<in> set (visit_log s)"
    using \<open>i < length (visit_log s)\<close> by (metis nth_mem)
  with v show ?thesis by simp
qed

lemma crawl_inv_seed_kept:
  assumes "crawl_inv C E s0 s" and "u \<in> set (queue s0)"
  shows "u |\<in>| visited s \<or> u \<in> set (queue s)"
proof -
  from assms(1) obtain new where n: "visit_log s @ queue s = queue s0 @ new"
    and v: "fset (visited s) = set (visit_log s)"
    by (auto simp: crawl_inv_def)
  from assms(2) have "u \<in> set (queue s0 @ new)" by simp
  then have "u \<in> set (visit_log s @ queue s)" by (simp only: n)
  with v show ?thesis by auto
qed

lemma crawl_inv_seen:
  assumes "crawl_inv C E s0 s" and "sg |\<in>| seen_param_signatures s"
  shows "DEDUP_PARAM_SIG C \<and> (\<exists>u. u |\<in>| found s \<and> normalize_param_signature E u = Inr sg)"
  using assms by (cases "DEDUP_PARAM_SIG C") (auto simp: crawl_inv_def)

section \<open>Seeds\<close>

text \<open>
  Claim C9. \<^verbatim>\<open>load_urls\<close> puts every seed into the queue, whatever its scheme, and records
  no signature. At every point of the crawl every seed is visited or still queued, and a
  signature that has been seen is the signature of a link found by the extractor, never
  recorded on account of a seed. When the crawl ends, the seeds at the first \<open>MAX_PAGES\<close>
  positions of the initial queue are visited. So, in dedup mode, a visited seed and a link
  extracted later that has the same signature can both be crawled.
\<close>

theorem seeds_bypass_filters:
  assumes "load_urls C E = Inr s0" and "seed_set C = Inr seeds"
  shows "set (queue s0) = set seeds \<and> distinct (queue s0)
     \<and> visited s0 = {||} \<and> seen_param_signatures s0 = {||}
     \<and> (\<forall>n s. run C E n s0 = Inr s \<longrightarrow>
           (\<forall>u\<in>set seeds. u |\<in>| visited s \<or> u \<in> set (queue s))
           \<and> (\<forall>sg. sg |\<in>| seen_param_signatures s \<longrightarrow>
                 DEDUP_PARAM_SIG C
                 \<and> (\<exists>u. u |\<in>| found s \<and> normalize_param_signature E u = Inr sg)))
     \<and> (\<forall>s. main C E = Inr s \<longrightarrow>
           (\<forall>i<length (queue s0). int i < MAX_PAGES C \<longrightarrow> queue s0 ! i |\<in>| visited s))
     \<and> (\<exists>C' E' s u v. DEDUP_PARAM_SIG C' \<and> seed_set C' = Inr [u] \<and> main C' E' = Inr s
           \<and> v |\<in>| found s \<and> u \<noteq> v
           \<and> normalize_param_signature E' u = normalize_param_signature E' v
           \<and> u |\<in>| visited s \<and> v |\<in>| visited s)"
proof -
  from load_urls_seeds [OF assms] have c1: "set (queue s0) = set seeds" .
  from load_urls_queue(1) [OF assms(1)] have c2: "distinct (queue s0)" .
  from load_urls_state [OF assms(1)] have c3: "visited s0 = {||}"
    and c4: "seen_param_signatures s0 = {||}" by auto
  have c5: "\<forall>n s. run C E n s0 = Inr s \<longrightarrow>
           (\<forall>u\<in>set seeds. u |\<in>| visited s \<or> u \<in> set (queue s))
           \<and> (\<forall>sg. sg |\<in>| seen_param_signatures s \<longrightarrow>
                 DEDUP_PARAM_SIG C
                 \<and> (\<exists>u. u |\<in>| found s \<and> normalize_param_signature E u = Inr sg))"
  proof (intro allI impI conjI ballI)
    fix n s u assume r: "run C E n s0 = Inr s" and u: "u \<in> set seeds"
    from u c1 have "u \<in> set (queue s0)" by simp
    from crawl_inv_seed_kept [OF crawl_inv_run [OF assms(1) r] this]
    show "u |\<in>| visited s \<or> u \<in> set (queue s)" .
  next
    fix n s sg assume r: "run C E n s0 = Inr s" and sg: "sg |\<in>| seen_param_signatures s"
    from crawl_inv_seen [OF crawl_inv_run [OF assms(1) r] sg]
    show "DEDUP_PARAM_SIG C" "\<exists>u. u |\<in>| found s \<and> normalize_param_signature E u = Inr sg"
      by simp_all
  qed
  have c6: "\<forall>s. main C E = Inr s \<longrightarrow>
           (\<forall>i<length (queue s0). int i < MAX_PAGES C \<longrightarrow> queue s0 ! i |\<in>| visited s)"
  proof (intro allI impI)
    fix s i assume m: "main C E = Inr s" and i: "i < length (queue s0)" "int i < MAX_PAGES C"
    from crawl_run [of C E s0] m main_crawl [OF assms(1)] obtain n where
      n: "run C E n s0 = Inr s" "\<not> loop_cond C s" by auto
    from crawl_inv_early_seed [OF crawl_inv_run [OF assms(1) n(1)] n(2) i]
    show "queue s0 ! i |\<in>| visited s" .
  qed
  have c7: "\<exists>C' E' s u v. DEDUP_PARAM_SIG C' \<and> seed_set C' = Inr [u] \<and> main C' E' = Inr s
           \<and> v |\<in>| found s \<and> u \<noteq> v
           \<and> normalize_param_signature E' u = normalize_param_signature E' v
           \<and> u |\<in>| visited s \<and> v |\<in>| visited s"
  proof (intro exI)
    show "DEDUP_PARAM_SIG (example_config ''http://h/p?id=1'' 50 0 True)
       \<and> seed_set (example_config ''http://h/p?id=1'' 50 0 True) = Inr [''http://h/p?id=1'']
       \<and> main (example_config ''http://h/p?id=1'' 50 0 True)
            (example_env (example_web [(''http://h/p?id=1'', [''http://h/p?id=2''])]))
          = Inr \<lparr>visited = {|''http://h/p?id=1'', ''http://h/p?id=2''|}, queue = [],
                 found = {|''http://h/p?id=2''|}, allowed_domains = {|''h''|},
                 seen_param_signatures = {|''/p?params=id''|},
                 visit_log = [''http://h/p?id=1'', ''http://h/p?id=2'']\<rparr>
       \<and> ''http://h/p?id=2'' |\<in>| found \<lparr>visited = {|''http://h/p?id=1'', ''http://h/p?id=2''|},
                 queue = [], found = {|''http://h/p?id=2''|}, allowed_domains = {|''h''|},
                 seen_param_signatures = {|''/p?params=id''|},
                 visit_log = [''http://h/p?id=1'', ''http://h/p?id=2'']\<rparr>
       \<and> ''http://h/p?id=1'' \<noteq> ''http://h/p?id=2''
       \<and> normalize_param_signature
            (example_env (example_web [(''http://h/p?id=1'', [''http://h/p?id=2''])]))
            ''http://h/p?id=1''
          = normalize_param_signature
            (example_env (example_web [(''http://h/p?id=1'', [''http://h/p?id=2''])]))
            ''http://h/p?id=2''
       \<and> ''http://h/p?id=1'' |\<in>| visited \<lparr>visited = {|''http://h/p?id=1'', ''http://h/p?id=2''|},
                 queue = [], found = {|''http://h/p?id=2''|}, allowed_domains = {|''h''|},
                 seen_param_signatures = {|''/p?params=id''|},
                 visit_log = [''http://h/p?id=1'', ''http://h/p?id=2'']\<rparr>
       \<and> ''http://h/p?id=2'' |\<in>| visited \<lparr>visited = {|''http://h/p?id=1'', ''http://h/p?id=2''|},
                 queue = [], found = {|''http://h/p?id=2''|}, allowed_domains = {|''h''|},
                 seen_param_signatures = {|''/p?params=id''|},
                 visit_log = [''http://h/p?id=1'', ''http://h/p?id=2'']\<rparr>"
      by code_simp
  qed
  show ?thesis
    by (intro conjI) (rule c1 c2 c3 c4 c5 c6 c7)+
qed

theorem seeds_bypass_filters_witness:
  "load_urls (example_config ''ftp://h/f?id=1'' 50 0 True)
       (example_env (example_web [(''ftp://h/f?id=1'', [''http://h/a'', ''ftp://h/g''])]))
     = Inr \<lparr>visited = {||}, queue = [''ftp://h/f?id=1''], found = {||},
            allowed_domains = {|''h''|}, seen_param_signatures = {||}, visit_log = []\<rparr>
   \<and> seed_set (example_config ''ftp://h/f?id=1'' 50 0 True) = Inr [''ftp://h/f?id=1'']
   \<and> is_valid (example_env (example_web [(''ftp://h/f?id=1'', [''http://h/a'', ''ftp://h/g''])]))
        {|''h''|} ''ftp://h/f?id=1'' = Inr False
   \<and> normalize_param_signature
        (example_env (example_web [(''ftp://h/f?id=1'', [''http://h/a'', ''ftp://h/g''])]))
        ''ftp://h/f?id=1'' = Inr ''/f?params=id''
   \<and> main (example_config ''ftp://h/f?id=1'' 50 0 True)
       (example_env (example_web [(''ftp://h/f?id=1'', [''http://h/a'', ''ftp://h/g''])]))
     = Inr \<lparr>visited = {|''ftp://h/f?id=1'', ''http://h/a''|}, queue = [],
            found = {|''http://h/a''|}, allowed_domains = {|''h''|},
            seen_param_signatures = {|''/a''|},
            visit_log = [''ftp://h/f?id=1'', ''http://h/a'']\<rparr>
   \<and> [''ftp://h/f?id=1''] ! 0 |\<in>| {|''ftp://h/f?id=1'', ''http://h/a''|}
   \<and> ''/f?params=id'' |\<notin>| {|''/a''|}"
proof -
  let ?C = "example_config ''ftp://h/f?id=1'' 50 0 True"
  let ?E = "example_env (example_web [(''ftp://h/f?id=1'', [''http://h/a'', ''ftp://h/g''])])"
  let ?init = "\<lparr>visited = {||}, queue = [''ftp://h/f?id=1''], found = {||},
            allowed_domains = {|''h''|}, seen_param_signatures = {||}, visit_log = []\<rparr>"
  let ?final = "\<lparr>visited = {|''ftp://h/f?id=1'', ''http://h/a''|}, queue = [],
            found = {|''http://h/a''|}, allowed_domains = {|''h''|},
            seen_param_signatures = {|''/a''|},
            visit_log = [''ftp://h/f?id=1'', ''http://h/a'']\<rparr>"
  have h1: "load_urls ?C ?E = Inr ?init" by code_simp
  have h2: "seed_set ?C = Inr [''ftp://h/f?id=1'']" by code_simp
  have h3: "is_valid ?E {|''h''|} ''ftp://h/f?id=1'' = Inr False" by code_simp
  have h4: "normalize_param_signature ?E ''ftp://h/f?id=1'' = Inr ''/f?params=id''" by code_simp
  have h5: "main ?C ?E = Inr ?final" by code_simp
  have h6: "0 < length (queue ?init)" by simp
  have h7: "int 0 < MAX_PAGES ?C" by code_simp
  have h8: "''/f?params=id'' |\<notin>| {|''/a''|}" by simp
  note T = seeds_bypass_filters [OF h1 h2]
  from T [THEN conjunct2, THEN conjunct2, THEN conjunct2, THEN conjunct2, THEN conjunct2,
      THEN conjunct1, THEN spec, THEN mp, OF h5, THEN spec, THEN mp, OF h6, THEN mp, OF h7]
  have r1: "[''ftp://h/f?id=1''] ! 0 |\<in>| {|''ftp://h/f?id=1'', ''http://h/a''|}" by simp
  show ?thesis
    by (intro conjI) (rule h1 h2 h3 h4 h5 r1 h8)+
qed

subsection \<open>The signature of the spec and the signature of the code\<close>

lemma names_without_blank_values:
  assumes "list_all (\<lambda>f. f = [] \<or> after CHR ''='' f \<noteq> []) (str_split CHR ''&'' qs)"
  shows "map (unquote_plus E) (nonblank_names qs) = query_parameter_names E qs"
proof -
  have "filter (\<lambda>f. after CHR ''='' f \<noteq> []) (str_split CHR ''&'' qs)
      = filter (\<lambda>f. f \<noteq> []) (str_split CHR ''&'' qs)"
    using assms by (intro filter_cong) (auto simp: list_all_iff)
  then show ?thesis
    by (simp add: nonblank_names_def query_parameter_names_def)
qed

lemma signatureOf_agrees:
  assumes "urlparse E url = Inr p"
    and "list_all (\<lambda>f. f = [] \<or> after CHR ''='' f \<noteq> []) (str_split CHR ''&'' (query p))"
  shows "normalize_param_signature E url = signatureOf E url"
  using assms(1) names_without_blank_values [OF assms(2), of E]
  by (simp add: normalize_param_signature_eq signatureOf_def Let_def)

lemma example_signatures:
  "normalize_param_signature E ''http://h/p?id=1'' = Inr ''/p?params=id''"
  "normalize_param_signature E ''http://h/p?id=2'' = Inr ''/p?params=id''"
  "normalize_param_signature E ''http://h/p?id=3&x=1'' = Inr ''/p?params=id&x''"
  by (simp_all add: signature_defs url_defs)

section \<open>The parameter signature and the deduplicator\<close>

text \<open>
  Claim C5, as stated, fails twice. A parameter with an empty value is a query parameter
  and its name is not in the signature: for \<^verbatim>\<open>/p?id=\<close> the spec's signature is
  \<^verbatim>\<open>/p?params=id\<close> and the code's is \<^verbatim>\<open>/p\<close>. And in dedup mode two URLs with one signature
  are both crawled when one of them is a seed.
\<close>

theorem signature_counterexample:
  "signatureOf (example_env (example_web [(''http://h/q?k=1'', [''http://h/q?k=2''])]))
       ''http://h/p?id='' = Inr ''/p?params=id''
   \<and> normalize_param_signature (example_env (example_web [(''http://h/q?k=1'', [''http://h/q?k=2''])]))
       ''http://h/p?id='' = Inr ''/p''
   \<and> normalize_param_signature (example_env (example_web [(''http://h/q?k=1'', [''http://h/q?k=2''])]))
       ''http://h/q?k=1'' = Inr ''/q?params=k''
   \<and> normalize_param_signature (example_env (example_web [(''http://h/q?k=1'', [''http://h/q?k=2''])]))
       ''http://h/q?k=2'' = Inr ''/q?params=k''
   \<and> main (example_config ''http://h/q?k=1'' 50 0 True)
        (example_env (example_web [(''http://h/q?k=1'', [''http://h/q?k=2''])]))
      = Inr \<lparr>visited = {|''http://h/q?k=1'', ''http://h/q?k=2''|}, queue = [],
             found = {|''http://h/q?k=2''|}, allowed_domains = {|''h''|},
             seen_param_signatures = {|''/q?params=k''|},
             visit_log = [''http://h/q?k=1'', ''http://h/q?k=2'']\<rparr>"
  by code_simp

text \<open>
  Claim C5, amended. The signature of a URL is its path joined with the sorted set of the
  names of its query parameters that have a non-empty value, and the path alone when
  there is none; it is the signature of the spec whenever no parameter has an empty value.
  The URLs \<^verbatim>\<open>/p?id=1\<close>, \<^verbatim>\<open>/p?id=2\<close> and \<^verbatim>\<open>/p?id=3&x=1\<close> have the two signatures
  \<^verbatim>\<open>/p?params=id\<close> and \<^verbatim>\<open>/p?params=id&x\<close>. In dedup mode, at every point of a crawl, the
  extractor has admitted at most one URL for each signature: two links found that have
  the same signature are the same URL, the signatures seen are exactly the signatures of
  the links found, every visited URL is a seed or a link found, and two visited URLs that
  are not seeds have different signatures.
\<close>

theorem signature_and_dedup:
  "(urlparse E url = Inr p \<longrightarrow>
      normalize_param_signature E url
        = Inr (let names = sort (remdups (map (unquote_plus E) (nonblank_names (query p))))
               in if names = [] then path p else path p @ ''?params='' @ str_join ''&'' names))
   \<and> (urlparse E url = Inr p
        \<and> list_all (\<lambda>f. f = [] \<or> after CHR ''='' f \<noteq> []) (str_split CHR ''&'' (query p))
      \<longrightarrow> normalize_param_signature E url = signatureOf E url)
   \<and> normalize_param_signature E ''http://h/p?id=1'' = Inr ''/p?params=id''
   \<and> normalize_param_signature E ''http://h/p?id=2'' = Inr ''/p?params=id''
   \<and> normalize_param_signature E ''http://h/p?id=3&x=1'' = Inr ''/p?params=id&x''
   \<and> (DEDUP_PARAM_SIG C \<and> load_urls C E = Inr s0 \<and> run C E n s0 = Inr s \<longrightarrow>
        (\<forall>u v. u |\<in>| found s \<and> v |\<in>| found s
              \<and> normalize_param_signature E u = normalize_param_signature E v \<longrightarrow> u = v)
        \<and> (\<forall>u. u |\<in>| found s \<longrightarrow>
              (\<exists>sg. normalize_param_signature E u = Inr sg \<and> sg |\<in>| seen_param_signatures s))
        \<and> (\<forall>sg. sg |\<in>| seen_param_signatures s \<longrightarrow>
              (\<exists>u. u |\<in>| found s \<and> normalize_param_signature E u = Inr sg))
        \<and> (\<forall>u. u |\<in>| visited s \<longrightarrow> u \<in> set (queue s0) \<or> u |\<in>| found s)
        \<and> (\<forall>u v. u |\<in>| visited s \<and> v |\<in>| visited s
              \<and> u \<notin> set (queue s0) \<and> v \<notin> set (queue s0)
              \<and> normalize_param_signature E u = normalize_param_signature E v \<longrightarrow> u = v))"
proof (intro conjI impI)
  assume "urlparse E url = Inr p"
  then show "normalize_param_signature E url
        = Inr (let names = sort (remdups (map (unquote_plus E) (nonblank_names (query p))))
               in if names = [] then path p else path p @ ''?params='' @ str_join ''&'' names)"
    by (rule normalize_param_signature_eq)
next
  assume "urlparse E url = Inr p
        \<and> list_all (\<lambda>f. f = [] \<or> after CHR ''='' f \<noteq> []) (str_split CHR ''&'' (query p))"
  then show "normalize_param_signature E url = signatureOf E url"
    by (auto intro: signatureOf_agrees)
next
  show "normalize_param_signature E ''http://h/p?id=1'' = Inr ''/p?params=id''"
    "normalize_param_signature E ''http://h/p?id=2'' = Inr ''/p?params=id''"
    "normalize_param_signature E ''http://h/p?id=3&x=1'' = Inr ''/p?params=id&x''"
    by (rule example_signatures)+
next
  assume a: "DEDUP_PARAM_SIG C \<and> load_urls C E = Inr s0 \<and> run C E n s0 = Inr s"
  then have inv: "crawl_inv C E s0 s" and d: "DEDUP_PARAM_SIG C"
    by (auto intro: crawl_inv_run)
  from inv d have i1: "\<forall>u. u |\<in>| found s \<longrightarrow>
          (\<exists>sg. normalize_param_signature E u = Inr sg \<and> sg |\<in>| seen_param_signatures s)"
    and i2: "\<forall>u v. u |\<in>| found s \<longrightarrow> v |\<in>| found s \<longrightarrow>
          normalize_param_signature E u = normalize_param_signature E v \<longrightarrow> u = v"
    and i3: "\<forall>sg. sg |\<in>| seen_param_signatures s \<longrightarrow>
          (\<exists>u. u |\<in>| found s \<and> normalize_param_signature E u = Inr sg)"
    by (simp_all add: crawl_inv_def)
  from i2 show "\<forall>u v. u |\<in>| found s \<and> v |\<in>| found s
              \<and> normalize_param_signature E u = normalize_param_signature E v \<longrightarrow> u = v"
    by blast
  from i1 show "\<forall>u. u |\<in>| found s \<longrightarrow>
              (\<exists>sg. normalize_param_signature E u = Inr sg \<and> sg |\<in>| seen_param_signatures s)" .
  from i3 show "\<forall>sg. sg |\<in>| seen_param_signatures s \<longrightarrow>
              (\<exists>u. u |\<in>| found s \<and> normalize_param_signature E u = Inr sg)" .
  from crawl_inv_origin [OF inv]
  show o: "\<forall>u. u |\<in>| visited s \<longrightarrow> u \<in> set (queue s0) \<or> u |\<in>| found s" by blast
  from o i2 show "\<forall>u v. u |\<in>| visited s \<and> v |\<in>| visited s
              \<and> u \<notin> set (queue s0) \<and> v \<notin> set (queue s0)
              \<and> normalize_param_signature E u = normalize_param_signature E v \<longrightarrow> u = v"
    by blast
qed

theorem signature_and_dedup_witness:
  "urlparse (example_env (example_web [(''http://h/'', [''http://h/p?id=1'', ''http://h/p?id=2'', ''http://h/p?id=3&x=1''])]))
       ''http://h/p?x=1&id=3&id=4''
     = Inr \<lparr>scheme = ''http'', netloc = ''h'', path = ''/p'', params = [],
            query = ''x=1&id=3&id=4'', fragment = []\<rparr>
   \<and> normalize_param_signature (example_env (example_web [(''http://h/'', [''http://h/p?id=1'', ''http://h/p?id=2'', ''http://h/p?id=3&x=1''])]))
       ''http://h/p?x=1&id=3&id=4'' = Inr ''/p?params=id&x''
   \<and> signatureOf (example_env (example_web [(''http://h/'', [''http://h/p?id=1'', ''http://h/p?id=2'', ''http://h/p?id=3&x=1''])]))
       ''http://h/p?x=1&id=3&id=4'' = Inr ''/p?params=id&x''
   \<and> main (example_config ''http://h/'' 50 0 True)
        (example_env (example_web [(''http://h/'', [''http://h/p?id=1'', ''http://h/p?id=2'', ''http://h/p?id=3&x=1''])]))
      = Inr \<lparr>visited = {|''http://h/'', ''http://h/p?id=1'', ''http://h/p?id=3&x=1''|},
             queue = [], found = {|''http://h/p?id=1'', ''http://h/p?id=3&x=1''|},
             allowed_domains = {|''h''|},
             seen_param_signatures = {|''/p?params=id'', ''/p?params=id&x''|},
             visit_log = [''http://h/'', ''http://h/p?id=1'', ''http://h/p?id=3&x=1'']\<rparr>
   \<and> (\<exists>u. u |\<in>| {|''http://h/p?id=1'', ''http://h/p?id=3&x=1''|}
          \<and> normalize_param_signature (example_env (example_web [(''http://h/'', [''http://h/p?id=1'', ''http://h/p?id=2'', ''http://h/p?id=3&x=1''])])) u
             = Inr ''/p?params=id'')
   \<and> ''http://h/p?id=2'' |\<notin>| {|''http://h/p?id=1'', ''http://h/p?id=3&x=1''|}"
proof -
  let ?E = "example_env (example_web [(''http://h/'', [''http://h/p?id=1'', ''http://h/p?id=2'', ''http://h/p?id=3&x=1''])])"
  let ?C = "example_config ''http://h/'' 50 0 True"
  let ?p = "\<lparr>scheme = ''http'', netloc = ''h'', path = ''/p'', params = [],
            query = ''x=1&id=3&id=4'', fragment = []\<rparr>"
  let ?init = "\<lparr>visited = {||}, queue = [''http://h/''], found = {||},
            allowed_domains = {|''h''|}, seen_param_signatures = {||}, visit_log = []\<rparr>"
  let ?final = "\<lparr>visited = {|''http://h/'', ''http://h/p?id=1'', ''http://h/p?id=3&x=1''|},
             queue = [], found = {|''http://h/p?id=1'', ''http://h/p?id=3&x=1''|},
             allowed_domains = {|''h''|},
             seen_param_signatures = {|''/p?params=id'', ''/p?params=id&x''|},
             visit_log = [''http://h/'', ''http://h/p?id=1'', ''http://h/p?id=3&x=1'']\<rparr>"
  have h1: "urlparse ?E ''http://h/p?x=1&id=3&id=4'' = Inr ?p" by code_simp
  have h2: "urlparse ?E ''http://h/p?x=1&id=3&id=4'' = Inr ?p
      \<and> list_all (\<lambda>f. f = [] \<or> after CHR ''='' f \<noteq> []) (str_split CHR ''&'' (query ?p))"
    by code_simp
  have h3: "DEDUP_PARAM_SIG ?C \<and> load_urls ?C ?E = Inr ?init \<and> run ?C ?E 3 ?init = Inr ?final"
    by code_simp
  have h4: "main ?C ?E = Inr ?final" by code_simp
  have h5: "''/p?params=id'' |\<in>| seen_param_signatures ?final" by simp
  have h6: "''http://h/p?id=2'' |\<notin>| {|''http://h/p?id=1'', ''http://h/p?id=3&x=1''|}" by simp
  have h7: "signatureOf ?E ''http://h/p?x=1&id=3&id=4'' = Inr ''/p?params=id&x''" by code_simp
  note T = signature_and_dedup [where E = ?E and url = "''http://h/p?x=1&id=3&id=4''" and p = ?p
      and C = ?C and ?s0.0 = ?init and n = 3 and s = ?final]
  from T [THEN conjunct2, THEN conjunct1, THEN mp, OF h2] h7
  have r1: "normalize_param_signature ?E ''http://h/p?x=1&id=3&id=4'' = Inr ''/p?params=id&x''"
    by (rule trans)
  from T [THEN conjunct2, THEN conjunct2, THEN conjunct2, THEN conjunct2, THEN conjunct2,
      THEN mp, OF h3, THEN conjunct2, THEN conjunct2, THEN conjunct1, THEN spec, THEN mp, OF h5]
  have r2: "\<exists>u. u |\<in>| {|''http://h/p?id=1'', ''http://h/p?id=3&x=1''|}
          \<and> normalize_param_signature ?E u = Inr ''/p?params=id''" by simp
  show ?thesis
    by (intro conjI) (rule h1 r1 h7 h4 r2 h6)+
qed

subsection \<open>A pass on a page that cannot be fetched or parsed\<close>





section \<open>Pages that cannot be fetched or parsed\<close>




subsection \<open>The order of the visits\<close>











section \<open>Breadth-first order\<close>



end
